theory Spec2Isabelle
  imports Main "HOL-Library.Word" "HOL-Library.Multiset"
begin

section \<open>JavaScript strings\<close>

text \<open>
  A JavaScript string is a sequence of UTF-16 code units. The regular expressions of
  \<^verbatim>\<open>js/main.js\<close> carry no \<^verbatim>\<open>u\<close> flag, so they work on code units as well.
\<close>

type_synonym jschar = "16 word"
type_synonym jsstring = "jschar list"

definition str :: "string \<Rightarrow> jsstring" where
  "str cs = map of_char cs"

definition isLineTerminator :: "jschar \<Rightarrow> bool" where
  "isLineTerminator c \<longleftrightarrow> c = 0x0A \<or> c = 0x0D \<or> c = 0x2028 \<or> c = 0x2029"

definition isWhiteSpace :: "jschar \<Rightarrow> bool" where
  "isWhiteSpace c \<longleftrightarrow>
     c = 0x09 \<or> c = 0x0B \<or> c = 0x0C \<or> c = 0x20 \<or> c = 0xA0 \<or> c = 0x1680 \<or>
     (0x2000 \<le> c \<and> c \<le> 0x200A) \<or> c = 0x202F \<or> c = 0x205F \<or> c = 0x3000 \<or>
     c = 0xFEFF \<or> isLineTerminator c"

definition startsWith :: "jsstring \<Rightarrow> jsstring \<Rightarrow> bool" where
  "startsWith s p \<longleftrightarrow> take (length p) s = p"

definition trim :: "jsstring \<Rightarrow> jsstring" where
  "trim s = rev (dropWhile isWhiteSpace (rev (dropWhile isWhiteSpace s)))"

fun join :: "jsstring \<Rightarrow> jsstring list \<Rightarrow> jsstring" where
  "join sep [] = []"
| "join sep [x] = x"
| "join sep (x # y # ys) = x @ sep @ join sep (y # ys)"

section \<open>Regular expressions\<close>

text \<open>
  The patterns of the repository are built from a literal character, a character class under
  \<^verbatim>\<open>+\<close>, \<^verbatim>\<open>*\<close> or \<^verbatim>\<open>*?\<close>, the assertions \<^verbatim>\<open>^\<close>, \<^verbatim>\<open>$\<close> and \<^verbatim>\<open>\b\<close>, and the
  parentheses of a capture group. \<open>atom\<close> has one constructor for each of them; a class is the
  predicate of its characters, and \<open>Open k\<close>, \<open>Close k\<close> stand where the parentheses of group
  \<open>k\<close> are. A pattern is the list of its atoms. A replacement text is a list of pieces:
  literal text and \<^verbatim>\<open>$k\<close>.

  \<open>matchSeq ml re p s mk cp\<close> matches \<open>re\<close> at the front of \<open>s\<close> in the order of the
  backtracking matcher of ECMAScript: a greedy quantifier tries its longest run first, a
  lazy one its shortest, each followed by the rest of the pattern, and the first success is
  the result. \<open>p\<close> is the code unit before \<open>s\<close> in the input (\<open>None\<close> at its start),
  \<open>ml\<close> the flag \<^verbatim>\<open>m\<close>, \<open>mk k\<close> the input that was left when group \<open>k\<close> opened and
  \<open>cp\<close> the captures so far. The result holds the code unit before the end of the match,
  the input after it and the captures.
\<close>

datatype atom =
    Lit jschar
  | Plus "jschar \<Rightarrow> bool"
  | Star "jschar \<Rightarrow> bool"
  | LazyStar "jschar \<Rightarrow> bool"
  | Bol
  | Eol
  | WordB
  | Open nat
  | Close nat

datatype piece = Txt jsstring | Grp nat

type_synonym captures = "nat \<Rightarrow> jsstring"

fun first_some :: "('a \<Rightarrow> 'b option) \<Rightarrow> 'a list \<Rightarrow> 'b option" where
  "first_some f [] = None"
| "first_some f (x # xs) = (case f x of Some r \<Rightarrow> Some r | None \<Rightarrow> first_some f xs)"

fun runs :: "(jschar \<Rightarrow> bool) \<Rightarrow> jschar option \<Rightarrow> jsstring \<Rightarrow> (jschar option \<times> jsstring) list" where
  "runs P p [] = [(p, [])]"
| "runs P p (y # ys) = (p, y # ys) # (if P y then runs P (Some y) ys else [])"

definition atLineStart :: "bool \<Rightarrow> jschar option \<Rightarrow> bool" where
  "atLineStart ml p = (case p of None \<Rightarrow> True | Some c \<Rightarrow> ml \<and> isLineTerminator c)"

definition atLineEnd :: "bool \<Rightarrow> jsstring \<Rightarrow> bool" where
  "atLineEnd ml s = (case s of [] \<Rightarrow> True | c # _ \<Rightarrow> ml \<and> isLineTerminator c)"

definition isWordChar :: "jschar \<Rightarrow> bool" where
  "isWordChar c \<longleftrightarrow> (0x61 \<le> c \<and> c \<le> 0x7A) \<or> (0x41 \<le> c \<and> c \<le> 0x5A) \<or> (0x30 \<le> c \<and> c \<le> 0x39) \<or> c = 0x5F"

definition atWordBoundary :: "jschar option \<Rightarrow> jsstring \<Rightarrow> bool" where
  "atWordBoundary p s \<longleftrightarrow>
     (case p of None \<Rightarrow> False | Some c \<Rightarrow> isWordChar c) \<noteq> (case s of [] \<Rightarrow> False | c # _ \<Rightarrow> isWordChar c)"

primrec matchSeq :: "bool \<Rightarrow> atom list \<Rightarrow> jschar option \<Rightarrow> jsstring \<Rightarrow> captures \<Rightarrow> captures
    \<Rightarrow> (jschar option \<times> jsstring \<times> captures) option" where
  "matchSeq ml [] p s mk cp = Some (p, s, cp)"
| "matchSeq ml (a # as) p s mk cp =
     (case a of
        Lit x \<Rightarrow> (case s of [] \<Rightarrow> None
                  | y # ys \<Rightarrow> if y = x then matchSeq ml as (Some y) ys mk cp else None)
      | Plus P \<Rightarrow> first_some (\<lambda>(p', s'). matchSeq ml as p' s' mk cp) (rev (tl (runs P p s)))
      | Star P \<Rightarrow> first_some (\<lambda>(p', s'). matchSeq ml as p' s' mk cp) (rev (runs P p s))
      | LazyStar P \<Rightarrow> first_some (\<lambda>(p', s'). matchSeq ml as p' s' mk cp) (runs P p s)
      | Bol \<Rightarrow> if atLineStart ml p then matchSeq ml as p s mk cp else None
      | Eol \<Rightarrow> if atLineEnd ml s then matchSeq ml as p s mk cp else None
      | WordB \<Rightarrow> if atWordBoundary p s then matchSeq ml as p s mk cp else None
      | Open k \<Rightarrow> matchSeq ml as p s (mk(k := s)) cp
      | Close k \<Rightarrow> matchSeq ml as p s mk (cp(k := take (length (mk k) - length s) (mk k))))"


lemma matchSeq_Lit_Nil [simp]: "matchSeq ml (Lit x # as) p [] mk cp = None"
  by simp

lemma matchSeq_Lit_Cons [simp]:
  "matchSeq ml (Lit x # as) p (y # ys) mk cp = (if y = x then matchSeq ml as (Some y) ys mk cp else None)"
  by simp

lemma matchSeq_Bol [simp]:
  "matchSeq ml (Bol # as) p s mk cp = (if atLineStart ml p then matchSeq ml as p s mk cp else None)"
  by simp

lemma matchSeq_Eol [simp]:
  "matchSeq ml (Eol # as) p s mk cp = (if atLineEnd ml s then matchSeq ml as p s mk cp else None)"
  by simp

lemma matchSeq_WordB [simp]:
  "matchSeq ml (WordB # as) p s mk cp = (if atWordBoundary p s then matchSeq ml as p s mk cp else None)"
  by simp

lemma matchSeq_Open [simp]:
  "matchSeq ml (Open k # as) p s mk cp = matchSeq ml as p s (mk(k := s)) cp"
  by simp

lemma matchSeq_Close [simp]:
  "matchSeq ml (Close k # as) p s mk cp =
     matchSeq ml as p s mk (cp(k := take (length (mk k) - length s) (mk k)))"
  by simp

lemma matchSeq_Plus:
  "matchSeq ml (Plus P # as) p s mk cp =
     first_some (\<lambda>(p', s'). matchSeq ml as p' s' mk cp) (rev (tl (runs P p s)))"
  by simp

lemma matchSeq_Star:
  "matchSeq ml (Star P # as) p s mk cp =
     first_some (\<lambda>(p', s'). matchSeq ml as p' s' mk cp) (rev (runs P p s))"
  by simp

lemma matchSeq_LazyStar:
  "matchSeq ml (LazyStar P # as) p s mk cp =
     first_some (\<lambda>(p', s'). matchSeq ml as p' s' mk cp) (runs P p s)"
  by simp

declare matchSeq.simps(2) [simp del]

lemma first_some_SomeD: "first_some f xs = Some r \<Longrightarrow> \<exists>x\<in>set xs. f x = Some r"
  by (induction xs) (auto split: option.splits)

lemma runs_drop: "(p', s') \<in> set (runs P p s) \<Longrightarrow> \<exists>k. s' = drop k s"
proof (induction s arbitrary: p)
  case Nil
  then show ?case by simp
next
  case (Cons a s)
  from Cons.prems consider "s' = a # s" | "(p', s') \<in> set (runs P (Some a) s)"
    by (auto split: if_splits)
  then show ?case
  proof cases
    case 1
    then show ?thesis by (intro exI [of _ 0]) simp
  next
    case 2
    from Cons.IH [OF this] obtain k where "s' = drop k s" ..
    then show ?thesis by (intro exI [of _ "Suc k"]) simp
  qed
qed

lemma first_some_runs:
  assumes "first_some (\<lambda>(q, t). f q t) xs = Some r" "set xs \<subseteq> set (runs P p s)"
  obtains q t k where "f q t = Some r" "t = drop k s"
proof -
  from first_some_SomeD [OF assms(1)] obtain q t where "(q, t) \<in> set xs" "f q t = Some r"
    by auto
  with assms(2) runs_drop [of q t P p s] that show thesis
    by blast
qed

lemma matchSeq_drop:
  "matchSeq ml re p s mk cp = Some (p', s', cp') \<Longrightarrow> \<exists>k. s' = drop k s"
proof (induction re arbitrary: p s mk cp)
  case Nil
  then show ?case by (intro exI [of _ 0]) simp
next
  case (Cons a as)
  have step: "\<exists>k. s' = drop k s"
    if "matchSeq ml as q t mk' cp'' = Some (p', s', cp')" "t = drop j s" for q t mk' cp'' j
  proof -
    from Cons.IH [OF that(1)] obtain k where "s' = drop k t" ..
    with that(2) show ?thesis by (intro exI [of _ "j + k"]) (simp add: add.commute)
  qed
  show ?case
  proof (cases a)
    case (Lit x)
    with Cons.prems obtain y ys where s: "s = y # ys"
      and m: "matchSeq ml as (Some y) ys mk cp = Some (p', s', cp')"
      by (cases s) (auto split: if_splits)
    from s have "ys = drop 1 s" by simp
    from step [OF m this] show ?thesis .
  next
    case (Plus P)
    with Cons.prems have "first_some (\<lambda>(q, t). matchSeq ml as q t mk cp) (rev (tl (runs P p s))) = Some (p', s', cp')"
      by (simp add: matchSeq_Plus)
    moreover have "set (rev (tl (runs P p s))) \<subseteq> set (runs P p s)"
      by (cases "runs P p s") auto
    ultimately show ?thesis
      by (rule first_some_runs) (rule step)
  next
    case (Star P)
    with Cons.prems have "first_some (\<lambda>(q, t). matchSeq ml as q t mk cp) (rev (runs P p s)) = Some (p', s', cp')"
      by (simp add: matchSeq_Star)
    moreover have "set (rev (runs P p s)) \<subseteq> set (runs P p s)"
      by simp
    ultimately show ?thesis
      by (rule first_some_runs) (rule step)
  next
    case (LazyStar P)
    with Cons.prems have "first_some (\<lambda>(q, t). matchSeq ml as q t mk cp) (runs P p s) = Some (p', s', cp')"
      by (simp add: matchSeq_LazyStar)
    moreover have "set (runs P p s) \<subseteq> set (runs P p s)"
      by simp
    ultimately show ?thesis
      by (rule first_some_runs) (rule step)
  next
    case Bol
    with Cons.prems have "matchSeq ml as p s mk cp = Some (p', s', cp')"
      by (simp split: if_splits)
    from step [OF this, of 0] show ?thesis by simp
  next
    case Eol
    with Cons.prems have "matchSeq ml as p s mk cp = Some (p', s', cp')"
      by (simp split: if_splits)
    from step [OF this, of 0] show ?thesis by simp
  next
    case WordB
    with Cons.prems have "matchSeq ml as p s mk cp = Some (p', s', cp')"
      by (simp split: if_splits)
    from step [OF this, of 0] show ?thesis by simp
  next
    case (Open k)
    with Cons.prems have "matchSeq ml as p s (mk(k := s)) cp = Some (p', s', cp')"
      by simp
    from step [OF this, of 0] show ?thesis by simp
  next
    case (Close k)
    with Cons.prems have "matchSeq ml as p s mk (cp(k := take (length (mk k) - length s) (mk k))) = Some (p', s', cp')"
      by simp
    from step [OF this, of 0] show ?thesis by simp
  qed
qed

text \<open>
  \<open>exec\<close> is one attempt at one position. \<open>replaceAll\<close> and \<open>replaceFirst\<close> are
  \<^verbatim>\<open>String.prototype.replace\<close> with and without the flag \<^verbatim>\<open>g\<close>: the search moves from left
  to right; after an empty match the next code unit is copied and the search resumes behind
  it. \<open>splitLoop\<close> is \<^verbatim>\<open>String.prototype.split\<close> with a pattern that has no capture group:
  an empty match at the start of a piece is passed over, \<open>acc\<close> is the piece collected so
  far.
\<close>

definition exec :: "bool \<Rightarrow> atom list \<Rightarrow> jschar option \<Rightarrow> jsstring
    \<Rightarrow> (jschar option \<times> jsstring \<times> captures) option" where
  "exec ml re p s = matchSeq ml re p s (\<lambda>_. []) (\<lambda>_. [])"

lemma exec_drop: "exec ml re p s = Some (p', s', cp) \<Longrightarrow> \<exists>k. s' = drop k s"
  unfolding exec_def by (rule matchSeq_drop)

lemma exec_suffix: "exec ml re p s = Some (p', s', cp) \<Longrightarrow> length s' \<le> length s"
  using exec_drop [of ml re p s p' s' cp] by auto

fun expand :: "piece list \<Rightarrow> captures \<Rightarrow> jsstring" where
  "expand [] cp = []"
| "expand (Txt t # ps) cp = t @ expand ps cp"
| "expand (Grp k # ps) cp = cp k @ expand ps cp"

fun replaceAll :: "bool \<Rightarrow> atom list \<Rightarrow> piece list \<Rightarrow> jschar option \<Rightarrow> jsstring \<Rightarrow> jsstring" where
  "replaceAll ml re tp p s =
     (case exec ml re p s of
        Some (p', s', cp) \<Rightarrow>
          if length s' < length s then expand tp cp @ replaceAll ml re tp p' s'
          else expand tp cp @ (case s of [] \<Rightarrow> [] | y # ys \<Rightarrow> y # replaceAll ml re tp (Some y) ys)
      | None \<Rightarrow> (case s of [] \<Rightarrow> [] | y # ys \<Rightarrow> y # replaceAll ml re tp (Some y) ys))"

fun replaceFirst :: "bool \<Rightarrow> atom list \<Rightarrow> piece list \<Rightarrow> jschar option \<Rightarrow> jsstring \<Rightarrow> jsstring" where
  "replaceFirst ml re tp p s =
     (case exec ml re p s of
        Some (p', s', cp) \<Rightarrow> expand tp cp @ s'
      | None \<Rightarrow> (case s of [] \<Rightarrow> [] | y # ys \<Rightarrow> y # replaceFirst ml re tp (Some y) ys))"

function splitLoop :: "bool \<Rightarrow> atom list \<Rightarrow> jsstring \<Rightarrow> jschar option \<Rightarrow> jsstring \<Rightarrow> jsstring list" where
  "splitLoop ml re acc p [] = [acc]"
| "splitLoop ml re acc p (y # ys) =
     (case exec ml re p (y # ys) of
        Some (p', s', cp) \<Rightarrow>
          if acc = [] \<and> length s' = Suc (length ys) then splitLoop ml re (acc @ [y]) (Some y) ys
          else acc # splitLoop ml re [] p' s'
      | None \<Rightarrow> splitLoop ml re (acc @ [y]) (Some y) ys)"
  by pat_completeness auto

termination splitLoop
  by (relation "measure (\<lambda>(ml, re, acc, p, s). 2 * length s + (if acc = [] then 0 else 1))")
     (auto dest!: exec_suffix)

record regex =
  atoms :: "atom list"
  globalFlag :: bool
  multilineFlag :: bool

definition replace :: "jsstring \<Rightarrow> regex \<Rightarrow> piece list \<Rightarrow> jsstring" where
  "replace s re tp =
     (if globalFlag re then replaceAll (multilineFlag re) (atoms re) tp None s
      else replaceFirst (multilineFlag re) (atoms re) tp None s)"

definition split :: "jsstring \<Rightarrow> regex \<Rightarrow> jsstring list" where
  "split s re =
     (if s = [] then (case exec (multilineFlag re) (atoms re) None [] of Some _ \<Rightarrow> [] | None \<Rightarrow> [[]])
      else splitLoop (multilineFlag re) (atoms re) [] None s)"

section \<open>Markdown conversion (js/main.js)\<close>

abbreviation ch :: "char \<Rightarrow> jschar" where
  "ch c \<equiv> of_char c"

definition linkRe :: regex where
  \<open>linkRe = \<lparr>atoms = [Lit (ch CHR ''[''), Open 1, Plus (\<lambda>c. c \<noteq> ch CHR '']''), Close 1, Lit (ch CHR '']''),
             Lit (ch CHR ''(''), Open 2, Plus (\<lambda>c. c \<noteq> ch CHR '')''), Close 2, Lit (ch CHR '')'')],
             globalFlag = True, multilineFlag = False\<rparr>\<close>

definition linkTp :: "piece list" where
  \<open>linkTp = [Txt (str ''<a href="''), Grp 2, Txt (str ''" target="_blank">''), Grp 1, Txt (str ''</a>'')]\<close>

definition boldRe :: regex where
  \<open>boldRe = \<lparr>atoms = [Lit (ch CHR ''*''), Lit (ch CHR ''*''), Open 1, Plus (\<lambda>c. c \<noteq> ch CHR ''*''), Close 1,
             Lit (ch CHR ''*''), Lit (ch CHR ''*'')], globalFlag = True, multilineFlag = False\<rparr>\<close>

definition boldTp :: "piece list" where
  \<open>boldTp = [Txt (str ''<strong>''), Grp 1, Txt (str ''</strong>'')]\<close>

definition italicRe :: regex where
  \<open>italicRe = \<lparr>atoms = [Lit (ch CHR ''*''), Open 1, Plus (\<lambda>c. c \<noteq> ch CHR ''*''), Close 1, Lit (ch CHR ''*'')],
             globalFlag = True, multilineFlag = False\<rparr>\<close>

definition italicTp :: "piece list" where
  \<open>italicTp = [Txt (str ''<em>''), Grp 1, Txt (str ''</em>'')]\<close>

definition formatInlineMarkdown :: "jsstring \<Rightarrow> jsstring" where
  "formatInlineMarkdown text =
     replace (replace (replace text linkRe linkTp) boldRe boldTp) italicRe italicTp"

text \<open>
  \<^verbatim>\<open>parseMarkdown\<close> (js/main.js, lines 105-141). The heading patterns carry the flags
  \<^verbatim>\<open>gim\<close>; their only literal characters are \<^verbatim>\<open>#\<close> and the space, which have no other
  case variant, so \<^verbatim>\<open>i\<close> changes nothing and is not modelled. The link, bold and italic
  patterns are those of \<^verbatim>\<open>formatInlineMarkdown\<close>.
\<close>

definition frontmatterRe :: regex where
  "frontmatterRe = \<lparr>atoms = [Bol, Lit (ch CHR ''-''), Lit (ch CHR ''-''), Lit (ch CHR ''-''),
      LazyStar (\<lambda>c. isWhiteSpace c \<or> \<not> isWhiteSpace c),
      Lit (ch CHR ''-''), Lit (ch CHR ''-''), Lit (ch CHR ''-''), Lit 0x0A],
      globalFlag = False, multilineFlag = False\<rparr>"

definition h3Re :: regex where
  "h3Re = \<lparr>atoms = [Bol, Lit (ch CHR ''#''), Lit (ch CHR ''#''), Lit (ch CHR ''#''), Lit (ch CHR '' ''),
      Open 1, Star (\<lambda>c. \<not> isLineTerminator c), Eol, Close 1],
      globalFlag = True, multilineFlag = True\<rparr>"

definition h2Re :: regex where
  "h2Re = \<lparr>atoms = [Bol, Lit (ch CHR ''#''), Lit (ch CHR ''#''), Lit (ch CHR '' ''),
      Open 1, Star (\<lambda>c. \<not> isLineTerminator c), Eol, Close 1],
      globalFlag = True, multilineFlag = True\<rparr>"

definition h1Re :: regex where
  "h1Re = \<lparr>atoms = [Bol, Lit (ch CHR ''#''), Lit (ch CHR '' ''),
      Open 1, Star (\<lambda>c. \<not> isLineTerminator c), Eol, Close 1],
      globalFlag = True, multilineFlag = True\<rparr>"

definition h3Tp :: "piece list" where
  "h3Tp = [Txt (str ''<h3>''), Grp 1, Txt (str ''</h3>'')]"

definition h2Tp :: "piece list" where
  "h2Tp = [Txt (str ''<h2>''), Grp 1, Txt (str ''</h2>'')]"

definition h1Tp :: "piece list" where
  "h1Tp = [Txt (str ''<h1>''), Grp 1, Txt (str ''</h1>'')]"

definition underscoreRe :: regex where
  "underscoreRe = \<lparr>atoms = [Lit (ch CHR ''_''), Lit (ch CHR ''_''), Open 1, Plus (\<lambda>c. c \<noteq> ch CHR ''_''), Close 1,
      Lit (ch CHR ''_''), Lit (ch CHR ''_'')], globalFlag = True, multilineFlag = False\<rparr>"

definition blankLinesRe :: regex where
  "blankLinesRe = \<lparr>atoms = [Lit 0x0A, Plus (\<lambda>c. c = 0x0A)], globalFlag = False, multilineFlag = False\<rparr>"

definition inlineHtml :: "jsstring \<Rightarrow> jsstring" where
  "inlineHtml markdown =
     (let html = markdown;
          html = replace html h3Re h3Tp;
          html = replace html h2Re h2Tp;
          html = replace html h1Re h1Tp;
          html = replace html linkRe linkTp;
          html = replace html boldRe boldTp;
          html = replace html underscoreRe boldTp;
          html = replace html italicRe italicTp
      in html)"

definition wrapBlock :: "jsstring \<Rightarrow> jsstring" where
  "wrapBlock block0 =
     (let block = trim block0 in
      if block = [] then []
      else if startsWith block (str ''<h'') \<or> startsWith block (str ''<figure'') \<or>
              startsWith block (str ''<ul'') \<or> startsWith block (str ''<ol'') \<or>
              startsWith block (str ''</'') then block
      else str ''<p>'' @ block @ str ''</p>'')"

definition paragraphs :: "jsstring \<Rightarrow> jsstring" where
  "paragraphs html = join [0x0A] (map wrapBlock (split html blankLinesRe))"

definition parseMarkdown :: "jsstring \<Rightarrow> jsstring" where
  "parseMarkdown markdown = paragraphs (inlineHtml (replace markdown frontmatterRe []))"

section \<open>Values, numbers, dates and the page\<close>

text \<open>
  An exception is a value. \<^verbatim>\<open>TypeError\<close> is what the call of a method that a value does not
  have throws, and what a conversion that finds nothing to call throws.
\<close>

datatype exn = TypeError

definition bindE :: "exn + 'a \<Rightarrow> ('a \<Rightarrow> exn + 'b) \<Rightarrow> exn + 'b" where
  "bindE m f = (case m of Inl e \<Rightarrow> Inl e | Inr x \<Rightarrow> f x)"

fun mapE :: "('a \<Rightarrow> exn + 'b) \<Rightarrow> 'a list \<Rightarrow> exn + 'b list" where
  "mapE f [] = Inr []"
| "mapE f (x # xs) =
     (case f x of
        Inl e \<Rightarrow> Inl e
      | Inr y \<Rightarrow> (case mapE f xs of Inl e \<Rightarrow> Inl e | Inr ys \<Rightarrow> Inr (y # ys)))"

text \<open>
  The timeline loaders read the fields of an entry without a check, so a field holds whatever
  the YAML or JSON document gives it. Four operations are applied to such a value: the test for
  truthiness, the conversion to a string inside a template literal, \<^verbatim>\<open>new Date(v)\<close>, and the
  call of a string method. For \<^verbatim>\<open>undefined\<close> (an absent field), \<^verbatim>\<open>null\<close>, a boolean and a
  string the language fixes the first three. Any other value (a number, a \<^verbatim>\<open>Date\<close>, a list, a
  mapping) is given by what the three yield on it; a conversion may throw, as that of a mapping
  with a key \<^verbatim>\<open>toString\<close> does. Of the values of a document only a string has the methods
  \<^verbatim>\<open>toLowerCase\<close> and \<^verbatim>\<open>replace\<close>.
\<close>

record conversions =
  asBoolean :: bool
  asString :: "exn + jsstring"
  asDate :: "exn + int option"

datatype jsval = Undefined | Null | Boolean bool | Str jsstring | Other conversions

fun truthy :: "jsval \<Rightarrow> bool" where
  "truthy Undefined = False"
| "truthy Null = False"
| "truthy (Boolean b) = b"
| "truthy (Str s) = (s \<noteq> [])"
| "truthy (Other c) = asBoolean c"

fun toString :: "jsval \<Rightarrow> exn + jsstring" where
  "toString Undefined = Inr (str ''undefined'')"
| "toString Null = Inr (str ''null'')"
| "toString (Boolean b) = Inr (if b then str ''true'' else str ''false'')"
| "toString (Str s) = Inr s"
| "toString (Other c) = asString c"

text \<open>
  An entry of the timeline file, a mapping. The module timeline.js spells the first two fields
  \<^verbatim>\<open>startDate\<close> and \<^verbatim>\<open>endDate\<close>.
\<close>

record timelineItem =
  start_date :: jsval
  end_date :: jsval
  description :: jsval
  url :: jsval
  logo :: jsval
  organization :: jsval

text \<open>
  \<^verbatim>\<open>Date\<close> and \<^verbatim>\<open>Array.prototype.sort\<close> are the platform's. Which strings \<^verbatim>\<open>Date\<close> parses is
  implementation-defined beyond the ISO format, and \<^verbatim>\<open>getFullYear\<close> reads the local time zone.
  The order in which \<^verbatim>\<open>sort\<close> leaves a list is implementation-defined where the comparator is
  not consistent, as one that returns \<^verbatim>\<open>NaN\<close> is; \<open>arraySort\<close> is the call
  \<^verbatim>\<open>timeline.sort(comparefn)\<close>, which ends in the sorted list or in what the comparator threw.
  They are parameters of the model. A number that may be \<^verbatim>\<open>NaN\<close> is an \<open>int option\<close>,
  \<open>None\<close> for \<^verbatim>\<open>NaN\<close>.
\<close>

record platform =
  dateParse :: "jsstring \<Rightarrow> int option"
  fullYear :: "int \<Rightarrow> int"
  toLocaleDateString :: "int option \<Rightarrow> jsstring"
  arraySort :: "(timelineItem \<Rightarrow> timelineItem \<Rightarrow> exn + int option) \<Rightarrow> timelineItem list
                  \<Rightarrow> exn + timelineItem list"

text \<open>
  A field of the other content items is a string, or absent (\<open>None\<close>, JavaScript's
  \<^verbatim>\<open>undefined\<close>).
\<close>

definition newDate :: "platform \<Rightarrow> jsstring option \<Rightarrow> int option" where
  "newDate pf v = (case v of None \<Rightarrow> None | Some s \<Rightarrow> dateParse pf s)"

definition getFullYear :: "platform \<Rightarrow> int option \<Rightarrow> int option" where
  "getFullYear pf d = map_option (fullYear pf) d"

fun digitsOf :: "nat \<Rightarrow> jsstring" where
  "digitsOf n = (if n < 10 then [of_nat (48 + n)] else digitsOf (n div 10) @ [of_nat (48 + n mod 10)])"

declare digitsOf.simps [simp del]

definition numberToString :: "int option \<Rightarrow> jsstring" where
  "numberToString v =
     (case v of None \<Rightarrow> str ''NaN''
      | Some n \<Rightarrow> if n < 0 then ch CHR ''-'' # digitsOf (nat (- n)) else digitsOf (nat n))"

text \<open>
  \<^verbatim>\<open>toLowerCase\<close> on the letters A to Z. No other code unit is mapped to a letter of
  \<^verbatim>\<open>present\<close> by Unicode's case mapping, so the comparison with \<^verbatim>\<open>'present'\<close> below is exact
  for every string.
\<close>

definition toLowerCase :: "jsstring \<Rightarrow> jsstring" where
  "toLowerCase s = map (\<lambda>c. if 0x41 \<le> c \<and> c \<le> 0x5A then c + 0x20 else c) s"

definition interp :: "jsstring option \<Rightarrow> jsstring" where
  "interp v = (case v of None \<Rightarrow> str ''undefined'' | Some s \<Rightarrow> s)"

definition truthyStr :: "jsstring option \<Rightarrow> bool" where
  "truthyStr v = (case v of None \<Rightarrow> False | Some s \<Rightarrow> s \<noteq> [])"

definition NL :: jsstring where
  "NL = [0x0A]"

text \<open>
  The page: the children of the elements that have an id. Assigning \<^verbatim>\<open>innerHTML\<close> replaces
  the children by one piece of markup; \<^verbatim>\<open>innerHTML +=\<close> and \<^verbatim>\<open>appendChild\<close> add a child at
  the end. \<open>console\<close> collects the messages of \<^verbatim>\<open>console.error\<close>.
\<close>

record anchorElement =
  a_href :: jsstring
  a_target :: jsstring
  a_className :: jsstring
  a_title :: jsstring
  a_innerHTML :: jsstring

datatype node = Markup jsstring | Anchor anchorElement

text \<open>
  The site configuration, as far as the section loaders read it: the list under \<^verbatim>\<open>contacts\<close>.
  \<open>siteConfig\<close> is the module's cache of it, \<open>None\<close> for \<^verbatim>\<open>null\<close>.
\<close>

record contact =
  c_url :: "jsstring option"
  c_name :: "jsstring option"
  c_icon :: "jsstring option"
  is_image :: "bool option"

record config =
  contacts :: "contact list option"

record page =
  elements :: "jsstring \<rightharpoonup> node list"
  console :: "jsstring list"
  siteConfig :: "config option"

section \<open>Timeline (js/main.js and timeline.js)\<close>

text \<open>\<^verbatim>\<open>new Date(v)\<close> for a field \<open>v\<close> of an entry.\<close>

fun newDateOf :: "platform \<Rightarrow> jsval \<Rightarrow> exn + int option" where
  "newDateOf pf Undefined = Inr None"
| "newDateOf pf Null = Inr (Some 0)"
| "newDateOf pf (Boolean b) = Inr (Some (if b then 1 else 0))"
| "newDateOf pf (Str s) = Inr (dateParse pf s)"
| "newDateOf pf (Other c) = asDate c"

text \<open>The comparator of both loaders; the difference of two dates is \<^verbatim>\<open>NaN\<close> when one is invalid.\<close>

definition compareStart :: "platform \<Rightarrow> timelineItem \<Rightarrow> timelineItem \<Rightarrow> exn + int option" where
  "compareStart pf a b =
     bindE (newDateOf pf (start_date a)) (\<lambda>dateA.
     bindE (newDateOf pf (start_date b)) (\<lambda>dateB.
     Inr (case (dateB, dateA) of (Some tb, Some ta) \<Rightarrow> Some (tb - ta) | _ \<Rightarrow> None)))"

text \<open>\<^verbatim>\<open>endYear\<close> holds the empty string, \<^verbatim>\<open>'Present'\<close> or a year number.\<close>

datatype yearValue = YStr jsstring | YNum "int option"

fun truthyYear :: "yearValue \<Rightarrow> bool" where
  "truthyYear (YStr s) = (s \<noteq> [])"
| "truthyYear (YNum v) = (v \<noteq> None \<and> v \<noteq> Some 0)"

fun yearToString :: "yearValue \<Rightarrow> jsstring" where
  "yearToString (YStr s) = s"
| "yearToString (YNum v) = numberToString v"

definition endYearOf :: "platform \<Rightarrow> timelineItem \<Rightarrow> exn + yearValue" where
  "endYearOf pf item =
     (if truthy (end_date item)
      then (case end_date item of
              Str s \<Rightarrow>
                if toLowerCase s = str ''present'' then Inr (YStr (str ''Present''))
                else bindE (newDateOf pf (end_date item)) (\<lambda>endDate. Inr (YNum (getFullYear pf endDate)))
            | _ \<Rightarrow> Inl TypeError)
      else Inr (YStr []))"

definition yearRange :: "platform \<Rightarrow> timelineItem \<Rightarrow> exn + jsstring" where
  "yearRange pf item =
     bindE (newDateOf pf (start_date item)) (\<lambda>startDate.
     let startYear = getFullYear pf startDate in
     bindE (endYearOf pf item) (\<lambda>endYear.
     Inr (if truthyYear endYear
          then numberToString startYear @ str '' - '' @ yearToString endYear
          else numberToString startYear @ str '' -'')))"

definition paragraphBreakRe :: regex where
  "paragraphBreakRe = \<lparr>atoms = [Lit 0x0A, Lit 0x0A], globalFlag = True, multilineFlag = False\<rparr>"

definition timelineDescription :: "timelineItem \<Rightarrow> exn + jsstring" where
  \<open>timelineDescription item =
     (let formattedDescription = (if truthy (description item) then description item else Str [])
      in case formattedDescription of
           Str s \<Rightarrow>
             Inr (replace (formatInlineMarkdown s) paragraphBreakRe
                    [Txt (str ''</p><p class="timeline-description">'')])
         | _ \<Rightarrow> Inl TypeError)\<close>

definition logoHTML :: "timelineItem \<Rightarrow> exn + jsstring" where
  \<open>logoHTML item =
     (if truthy (url item)
      then bindE (toString (url item)) (\<lambda>itemUrl.
           bindE (toString (logo item)) (\<lambda>itemLogo.
           bindE (toString (organization item)) (\<lambda>itemOrganization.
           Inr (str ''<a href="'' @ itemUrl @ str ''" target="_blank" class="timeline-logo-link"><img src="'' @
                itemLogo @ str ''" alt="'' @ itemOrganization @ str ''" class="timeline-logo"></a>''))))
      else bindE (toString (logo item)) (\<lambda>itemLogo.
           bindE (toString (organization item)) (\<lambda>itemOrganization.
           Inr (str ''<img src="'' @ itemLogo @ str ''" alt="'' @ itemOrganization @
                str ''" class="timeline-logo">''))))\<close>

text \<open>
  The body of the callback that both loaders run on an entry: the markup of the entry, or what
  one of its statements threw.
\<close>

definition renderTimelineItem :: "platform \<Rightarrow> timelineItem \<Rightarrow> exn + jsstring" where
  \<open>renderTimelineItem pf item =
     bindE (yearRange pf item) (\<lambda>yearRange.
     bindE (timelineDescription item) (\<lambda>formattedDescription.
     bindE (logoHTML item) (\<lambda>logoHTML.
     Inr (concat
       [NL,
        str ''            <div class="timeline-item">'', NL,
        str ''                <div class="timeline-dot"></div>'', NL,
        str ''                <div class="timeline-year">'', yearRange, str ''</div>'', NL,
        str ''                '', logoHTML, NL,
        str ''                <div class="timeline-content">'', NL,
        str ''                    <p class="timeline-description">'', formattedDescription, str ''</p>'', NL,
        str ''                </div>'', NL,
        str ''            </div>'', NL,
        str ''            '']))))\<close>

text \<open>
  \<^verbatim>\<open>loadTimeline\<close> of js/main.js. \<open>timeline\<close> is what \<^verbatim>\<open>await loadYaml(...)\<close> gave: the list of
  entries (the file is taken to hold a list of mappings), or \<open>None\<close> for \<^verbatim>\<open>null\<close>. What the
  sort or the rendering of an entry throws is caught at the end of the function and logged; the
  list on the page is then not assigned.
\<close>

definition loadTimeline :: "platform \<Rightarrow> timelineItem list option \<Rightarrow> page \<Rightarrow> page" where
  "loadTimeline pf timeline pg =
     (let listContainer = elements pg (str ''timeline-list'') in
      case (listContainer, timeline) of
        (Some _, Some entries) \<Rightarrow>
          (case bindE (arraySort pf (compareStart pf) entries) (mapE (renderTimelineItem pf)) of
             Inr timelineItems \<Rightarrow>
               pg\<lparr>elements := (elements pg)(str ''timeline-list'' \<mapsto> [Markup (concat timelineItems)])\<rparr>
           | Inl error \<Rightarrow> pg\<lparr>console := console pg @ [str ''Error loading timeline:'']\<rparr>)
      | _ \<Rightarrow> pg)"

text \<open>
  \<^verbatim>\<open>loadTimeline\<close> of timeline.js, the self-contained module: the entries are read with
  \<^verbatim>\<open>fetch\<close> and \<^verbatim>\<open>response.json()\<close>, \<open>None\<close> when either throws, and each entry is added with
  \<^verbatim>\<open>innerHTML +=\<close> as soon as it is rendered, so the entries before one that throws stay on
  the page. The inline patterns are written out there and are those of
  \<^verbatim>\<open>formatInlineMarkdown\<close>.
\<close>

fun forEachItem :: "platform \<Rightarrow> timelineItem list \<Rightarrow> node list \<Rightarrow> node list \<times> exn option" where
  "forEachItem pf [] children = (children, None)"
| "forEachItem pf (item # items) children =
     (case renderTimelineItem pf item of
        Inl error \<Rightarrow> (children, Some error)
      | Inr timelineHTML \<Rightarrow> forEachItem pf items (children @ [Markup timelineHTML]))"

definition loadTimelineModule :: "platform \<Rightarrow> timelineItem list option \<Rightarrow> page \<Rightarrow> page" where
  "loadTimelineModule pf fetched pg =
     (case fetched of
        None \<Rightarrow> pg\<lparr>console := console pg @ [str ''Error loading timeline:'']\<rparr>
      | Some timeline \<Rightarrow>
          (case elements pg (str ''timeline-list'') of
             None \<Rightarrow> pg
           | Some children \<Rightarrow>
               (case arraySort pf (compareStart pf) timeline of
                  Inl error \<Rightarrow> pg\<lparr>console := console pg @ [str ''Error loading timeline:'']\<rparr>
                | Inr sortedTimeline \<Rightarrow>
                    (case forEachItem pf sortedTimeline children of
                       (children', None) \<Rightarrow>
                         pg\<lparr>elements := (elements pg)(str ''timeline-list'' \<mapsto> children')\<rparr>
                     | (children', Some error) \<Rightarrow>
                         pg\<lparr>elements := (elements pg)(str ''timeline-list'' \<mapsto> children'),
                            console := console pg @ [str ''Error loading timeline:'']\<rparr>))))"

subsection \<open>What the language promises of \<^verbatim>\<open>Array.prototype.sort\<close>\<close>

text \<open>
  ECMAScript reads the comparator's result \<open>v\<close> on \<open>a\<close> and \<open>b\<close> as \<open>a < b\<close> when \<open>v < 0\<close>, as
  \<open>a = b\<close> when \<open>v = 0\<close> and as \<open>a > b\<close> when \<open>v > 0\<close>. A comparator is consistent on a set of
  values when it returns a number other than \<^verbatim>\<open>NaN\<close> on each pair, \<open>=\<close> is reflexive and symmetric,
  and \<open>=\<close>, \<open><\<close> and \<open>>\<close> are transitive. For a consistent comparator the sorted list is a
  permutation of the given one in which no element stands behind one that is greater, and (since
  ECMAScript 2019) elements that compare equal keep their order. Otherwise the order is
  implementation-defined, and nothing is said about it here.
\<close>

definition eqCF :: "('a \<Rightarrow> 'a \<Rightarrow> exn + int option) \<Rightarrow> 'a \<Rightarrow> 'a \<Rightarrow> bool" where
  "eqCF cmp a b = (case cmp a b of Inr (Some v) \<Rightarrow> v = 0 | _ \<Rightarrow> False)"

definition ltCF :: "('a \<Rightarrow> 'a \<Rightarrow> exn + int option) \<Rightarrow> 'a \<Rightarrow> 'a \<Rightarrow> bool" where
  "ltCF cmp a b = (case cmp a b of Inr (Some v) \<Rightarrow> v < 0 | _ \<Rightarrow> False)"

definition gtCF :: "('a \<Rightarrow> 'a \<Rightarrow> exn + int option) \<Rightarrow> 'a \<Rightarrow> 'a \<Rightarrow> bool" where
  "gtCF cmp a b = (case cmp a b of Inr (Some v) \<Rightarrow> v > 0 | _ \<Rightarrow> False)"

definition consistent :: "('a \<Rightarrow> 'a \<Rightarrow> exn + int option) \<Rightarrow> 'a set \<Rightarrow> bool" where
  "consistent cmp A \<longleftrightarrow>
     (\<forall>a\<in>A. \<forall>b\<in>A. eqCF cmp a b \<or> ltCF cmp a b \<or> gtCF cmp a b) \<and>
     (\<forall>a\<in>A. eqCF cmp a a) \<and>
     (\<forall>a\<in>A. \<forall>b\<in>A. eqCF cmp a b \<longrightarrow> eqCF cmp b a) \<and>
     (\<forall>a\<in>A. \<forall>b\<in>A. \<forall>c\<in>A. eqCF cmp a b \<and> eqCF cmp b c \<longrightarrow> eqCF cmp a c) \<and>
     (\<forall>a\<in>A. \<forall>b\<in>A. \<forall>c\<in>A. ltCF cmp a b \<and> ltCF cmp b c \<longrightarrow> ltCF cmp a c) \<and>
     (\<forall>a\<in>A. \<forall>b\<in>A. \<forall>c\<in>A. gtCF cmp a b \<and> gtCF cmp b c \<longrightarrow> gtCF cmp a c)"

definition sortedBy :: "('a \<Rightarrow> 'a \<Rightarrow> exn + int option) \<Rightarrow> 'a list \<Rightarrow> 'a list \<Rightarrow> bool" where
  "sortedBy cmp xs ys \<longleftrightarrow>
     mset ys = mset xs \<and>
     sorted_wrt (\<lambda>a b. \<not> ltCF cmp b a) ys \<and>
     (\<forall>a\<in>set xs. filter (eqCF cmp a) ys = filter (eqCF cmp a) xs)"

definition conforming :: "platform \<Rightarrow> bool" where
  "conforming pf \<longleftrightarrow>
     (\<forall>cmp xs. consistent cmp (set xs) \<longrightarrow>
        (case arraySort pf cmp xs of Inr ys \<Rightarrow> sortedBy cmp xs ys | Inl e \<Rightarrow> False))"

section \<open>Table of contents (js/main.js, generateTableOfContents)\<close>

text \<open>
  The part of the blog page the function touches. \<open>blogBody\<close> lists the elements below
  \<^verbatim>\<open>#blog-body\<close> in document order, \<open>tocList\<close> the items of \<^verbatim>\<open>#toc-list\<close>, \<open>blogToc\<close> is the
  \<^verbatim>\<open>style.display\<close> of \<^verbatim>\<open>#blog-toc\<close>; \<open>None\<close> stands for an element that is not in the
  page. The click handler of a link and the body of the scroll handler run later, on events:
  the model records only that a scroll listener is registered.
\<close>

record domElement =
  tagName :: jsstring
  elemId :: jsstring
  textContent :: jsstring

record tocLink =
  link_href :: jsstring
  link_text :: jsstring
  link_fontSize :: jsstring

record tocItem =
  item_paddingLeft :: jsstring
  item_link :: tocLink

record blogDom =
  blogBody :: "domElement list option"
  tocList :: "tocItem list option"
  blogToc :: "jsstring option"
  scrollListeners :: nat

definition isHeading :: "domElement \<Rightarrow> bool" where
  "isHeading e \<longleftrightarrow> tagName e = str ''H2'' \<or> tagName e = str ''H3''"

definition sectionId :: "nat \<Rightarrow> jsstring" where
  "sectionId index = str ''section-'' @ digitsOf index"

text \<open>\<open>numberHeadings\<close>: the assignment \<^verbatim>\<open>heading.id = id\<close>, seen from the body of the document.\<close>

fun numberHeadings :: "nat \<Rightarrow> domElement list \<Rightarrow> domElement list" where
  "numberHeadings index [] = []"
| "numberHeadings index (e # es) =
     (if isHeading e then e\<lparr>elemId := sectionId index\<rparr> # numberHeadings (Suc index) es
      else e # numberHeadings index es)"

definition tocEntry :: "nat \<Rightarrow> domElement \<Rightarrow> tocItem" where
  "tocEntry index heading =
     (let id = sectionId index;
          link = \<lparr>link_href = str ''#'' @ id, link_text = textContent heading, link_fontSize = []\<rparr>;
          listItem = \<lparr>item_paddingLeft = [], item_link = link\<rparr>
      in if tagName heading = str ''H3''
         then listItem\<lparr>item_paddingLeft := str ''12px'', item_link := link\<lparr>link_fontSize := str ''13px''\<rparr>\<rparr>
         else listItem)"

definition generateTableOfContents :: "blogDom \<Rightarrow> blogDom" where
  "generateTableOfContents doc =
     (case (blogBody doc, tocList doc) of
        (Some body, Some toc) \<Rightarrow>
          (let headings = filter isHeading body in
           if length headings = 0
           then (case blogToc doc of
                   Some _ \<Rightarrow> doc\<lparr>blogToc := Some (str ''none'')\<rparr>
                 | None \<Rightarrow> doc)
           else doc\<lparr>blogBody := Some (numberHeadings 0 body),
                    tocList := Some (toc @ map (\<lambda>(index, heading). tocEntry index heading)
                                               (enumerate 0 headings)),
                    scrollListeners := Suc (scrollListeners doc)\<rparr>)
      | _ \<Rightarrow> doc)"

section \<open>Section loaders (js/main.js)\<close>

text \<open>
  Each loader is given what its \<^verbatim>\<open>await\<close> produced and the page, and returns the page it
  leaves. Its whole body is a \<^verbatim>\<open>try\<close> block whose \<^verbatim>\<open>catch\<close> logs the error: an exception
  thrown inside is a value \<open>Inl\<close> that ends in a console message, and the loader itself
  always returns.
\<close>

definition formatInlineMarkdownOf :: "jsstring option \<Rightarrow> exn + jsstring" where
  "formatInlineMarkdownOf text =
     (case text of None \<Rightarrow> Inl TypeError | Some s \<Rightarrow> Inr (formatInlineMarkdown s))"

subsection \<open>Media\<close>

text \<open>\<^verbatim>\<open>timestamp\<close> is a number of seconds.\<close>

record mediaItem =
  video_id :: "jsstring option"
  timestamp :: "nat option"
  m_title :: "jsstring option"
  m_description :: "jsstring option"

definition mediaCard :: "mediaItem \<Rightarrow> exn + jsstring" where
  \<open>mediaCard item =
     (let videoUrl =
            (case timestamp item of
               Some (Suc n) \<Rightarrow> str ''https://www.youtube.com/embed/'' @ interp (video_id item) @
                              str ''?start='' @ digitsOf (Suc n)
             | _ \<Rightarrow> str ''https://www.youtube.com/embed/'' @ interp (video_id item))
      in case formatInlineMarkdownOf (m_title item) of
           Inl e \<Rightarrow> Inl e
         | Inr formattedTitle \<Rightarrow>
             (case formatInlineMarkdownOf (m_description item) of
                Inl e \<Rightarrow> Inl e
              | Inr formattedDescription \<Rightarrow> Inr (concat
                         [NL,
                          str ''            <div class="media-item">'', NL,
                          str ''                <div class="media-thumbnail">'', NL,
                          str ''                    <iframe '', NL,
                          str ''                        src="'', videoUrl, str ''" '', NL,
                          str ''                        title="'', interp (m_title item), str ''"'', NL,
                          str ''                        allow="accelerometer; autoplay; clipboard-write; encrypted-media; gyroscope; picture-in-picture" '', NL,
                          str ''                        allowfullscreen>'', NL,
                          str ''                    </iframe>'', NL,
                          str ''                </div>'', NL,
                          str ''                <div class="media-info">'', NL,
                          str ''                    <h3>'', formattedTitle, str ''</h3>'', NL,
                          str ''                    <p>'', formattedDescription, str ''</p>'', NL,
                          str ''                </div>'', NL,
                          str ''            </div>'', NL,
                          str ''            ''])))\<close>

definition loadMedia :: "mediaItem list option \<Rightarrow> page \<Rightarrow> page" where
  "loadMedia mediaItems pg =
     (case (elements pg (str ''media-list''), mediaItems) of
        (Some _, Some items) \<Rightarrow>
          (case mapE mediaCard items of
             Inr mediaCards \<Rightarrow>
               pg\<lparr>elements := (elements pg)(str ''media-list'' \<mapsto> [Markup (concat mediaCards)])\<rparr>
           | Inl error \<Rightarrow> pg\<lparr>console := console pg @ [str ''Error loading media:'']\<rparr>)
      | _ \<Rightarrow> pg)"

subsection \<open>Publications\<close>

record publication =
  paper :: "jsstring option"
  link :: "jsstring option"
  code :: "jsstring option"
  poster :: "jsstring option"
  slides :: "jsstring option"
  video :: "jsstring option"
  demo :: "jsstring option"
  authors :: "jsstring option"
  p_title :: "jsstring option"
  image :: "jsstring option"
  venue :: "jsstring option"
  conference :: "jsstring option"

record button =
  btn_key :: jsstring
  btn_label :: jsstring
  btn_url :: "jsstring option"

text \<open>\<^verbatim>\<open>a || b\<close> on two fields.\<close>

definition orJs :: "jsstring option \<Rightarrow> jsstring option \<Rightarrow> jsstring option" where
  "orJs a b = (if truthyStr a then a else b)"

definition authorRe :: regex where
  "authorRe = \<lparr>atoms = [WordB, Lit (ch CHR ''F''), Lit (ch CHR ''.''), Lit (ch CHR '' ''), Lit (ch CHR ''F''),
      Lit (ch CHR ''e''), Lit (ch CHR ''h''), Lit (ch CHR ''r''), WordB],
      globalFlag = True, multilineFlag = False\<rparr>"

definition publicationCard :: "publication \<Rightarrow> exn + jsstring" where
  \<open>publicationCard pub =
     (let buttons =
            [\<lparr>btn_key = str ''paper'', btn_label = str ''Paper'', btn_url = orJs (paper pub) (link pub)\<rparr>,
             \<lparr>btn_key = str ''code'', btn_label = str ''Code'', btn_url = code pub\<rparr>,
             \<lparr>btn_key = str ''poster'', btn_label = str ''Poster'', btn_url = poster pub\<rparr>,
             \<lparr>btn_key = str ''slides'', btn_label = str ''Slides'', btn_url = slides pub\<rparr>,
             \<lparr>btn_key = str ''video'', btn_label = str ''Video'', btn_url = video pub\<rparr>,
             \<lparr>btn_key = str ''demo'', btn_label = str ''Demo'', btn_url = demo pub\<rparr>];
          availableButtons = filter (\<lambda>btn. truthyStr (btn_url btn)) buttons;
          buttonsHTML =
            (if length availableButtons > 0
             then str ''<div class="pub-buttons">'' @
                  concat (map (\<lambda>btn. concat
                                   [str ''<a href="'', interp (btn_url btn), str ''" class="pub-button" target="_blank" onclick="event.stopPropagation()">'', btn_label btn, str ''</a>'']) availableButtons) @
                  str ''</div>''
             else [])
      in case authors pub of
           None \<Rightarrow> Inl TypeError
         | Some a \<Rightarrow>
             (let formattedAuthors = replace a authorRe [Txt (str ''<strong>F. Fehr</strong>'')]
              in Inr (concat
                       [NL,
                        str ''            <div class="publication" onclick="window.open('', [0x27], interp (orJs (paper pub) (link pub)), [0x27], str '', '', [0x27], str ''_blank'', [0x27], str '')">'', NL,
                        str ''                <div class="pub-image">'', NL,
                        str ''                    <img src="'', interp (image pub), str ''" alt="'', interp (p_title pub), str ''">'', NL,
                        str ''                </div>'', NL,
                        str ''                <div class="pub-description">'', NL,
                        str ''                    <h2>'', interp (p_title pub), str ''</h2>'', NL,
                        str ''                    <p>'', formattedAuthors, str ''</p>'', NL,
                        str ''                    <p>'', interp (venue pub), str ''</p>'', NL,
                        str ''                    <p><b class='', [0x27], str ''pub-conference'', [0x27], str ''>'', interp (conference pub), str ''</b></p>'', NL,
                        str ''                    '', buttonsHTML, NL,
                        str ''                </div>'', NL,
                        str ''            </div>'', NL,
                        str ''            ''])))\<close>

definition loadPublications :: "publication list option \<Rightarrow> page \<Rightarrow> page" where
  "loadPublications publications pg =
     (case (elements pg (str ''publications-list''), publications) of
        (Some _, Some pubs) \<Rightarrow>
          (case mapE publicationCard pubs of
             Inr publicationCards \<Rightarrow>
               pg\<lparr>elements := (elements pg)(str ''publications-list'' \<mapsto> [Markup (concat publicationCards)])\<rparr>
           | Inl error \<Rightarrow> pg\<lparr>console := console pg @ [str ''Error loading publications:'']\<rparr>)
      | _ \<Rightarrow> pg)"

subsection \<open>Blog list\<close>

record blogEntry =
  b_id :: "jsstring option"
  b_title :: "jsstring option"
  b_date :: "jsstring option"
  excerpt :: "jsstring option"
  thumbnail :: "jsstring option"

definition formatDate :: "platform \<Rightarrow> jsstring option \<Rightarrow> jsstring" where
  "formatDate pf dateString = toLocaleDateString pf (newDate pf dateString)"

definition blogCard :: "platform \<Rightarrow> blogEntry \<Rightarrow> jsstring" where
  \<open>blogCard pf blog =
     (let formattedDate = formatDate pf (b_date blog)
      in concat
           [NL,
            str ''            <a href="blogs.html?id='', interp (b_id blog), str ''" style="text-decoration:none;">'', NL,
            str ''            <div class="blog-post">'', NL,
            str ''                <div class="blog-image">'', NL,
            str ''                    <img src="'', interp (thumbnail blog), str ''" alt="'', interp (b_title blog), str ''">'', NL,
            str ''                </div>'', NL,
            str ''                <div class="blog-description">'', NL,
            str ''                    <h2>'', interp (b_title blog), str ''</h2>'', NL,
            str ''                    <p class="blog-date">'', formattedDate, str ''</p>'', NL,
            str ''                    <p>'', interp (excerpt blog), str ''</p>'', NL,
            str ''                </div>'', NL,
            str ''            </div>'', NL,
            str ''            </a>'', NL,
            str ''            ''])\<close>

definition loadBlogs :: "platform \<Rightarrow> blogEntry list option \<Rightarrow> page \<Rightarrow> page" where
  "loadBlogs pf blogs pg =
     (case (elements pg (str ''blog-list''), blogs) of
        (Some _, Some entries) \<Rightarrow>
          pg\<lparr>elements := (elements pg)(str ''blog-list'' \<mapsto> [Markup (concat (map (blogCard pf) entries))])\<rparr>
      | _ \<Rightarrow> pg)"

subsection \<open>Configuration and social links\<close>

text \<open>
  \<open>response\<close> is what \<^verbatim>\<open>fetch\<close>, \<^verbatim>\<open>response.text()\<close> and \<^verbatim>\<open>jsyaml.load\<close> give when they run:
  \<open>Failed\<close> when one of them throws, else the parsed value, \<open>None\<close> for an empty document.
  \<open>loadConfigFinish\<close> is the part of \<^verbatim>\<open>loadConfig\<close> after its two \<^verbatim>\<open>await\<close>s.
\<close>

datatype 'a fetched = Failed | Loaded 'a

definition loadConfigFinish :: "config option fetched \<Rightarrow> page \<Rightarrow> config option \<times> page" where
  "loadConfigFinish response pg =
     (case response of
        Loaded v \<Rightarrow> (v, pg\<lparr>siteConfig := v\<rparr>)
      | Failed \<Rightarrow> (None, pg\<lparr>console := console pg @ [str ''Error loading config:'']\<rparr>))"

definition loadConfig :: "config option fetched \<Rightarrow> page \<Rightarrow> config option \<times> page" where
  "loadConfig response pg =
     (case siteConfig pg of
        Some cfg \<Rightarrow> (Some cfg, pg)
      | None \<Rightarrow> loadConfigFinish response pg)"

definition socialLink :: "contact \<Rightarrow> anchorElement" where
  \<open>socialLink contact =
     \<lparr>a_href = interp (c_url contact),
      a_target = str ''_blank'',
      a_className = str ''social-link'',
      a_title = interp (c_name contact),
      a_innerHTML =
        (if is_image contact = Some True
         then str ''<img src="'' @ interp (c_icon contact) @ str ''" alt="'' @ interp (c_name contact) @
              str ''" class="social-icon-img">''
         else str ''<span class="social-icon">'' @ interp (c_icon contact) @ str ''</span>'')\<rparr>\<close>

definition loadSocialLinks :: "config option fetched \<Rightarrow> page \<Rightarrow> page" where
  "loadSocialLinks response pg0 =
     (case loadConfig response pg0 of
        (None, pg) \<Rightarrow> pg
      | (Some cfg, pg) \<Rightarrow>
          (case (elements pg (str ''profile-socials''), contacts cfg) of
             (Some children, Some cs) \<Rightarrow>
               pg\<lparr>elements := (elements pg)(str ''profile-socials'' \<mapsto>
                    children @ map (\<lambda>contact. Anchor (socialLink contact)) cs)\<rparr>
           | _ \<Rightarrow> pg))"

section \<open>Interleaved calls of loadConfig\<close>

text \<open>
  JavaScript runs one piece of code at a time. A call of \<^verbatim>\<open>loadConfig\<close> runs without
  interruption up to its first \<^verbatim>\<open>await\<close>: it returns the cached configuration, or starts a
  fetch. The rest of the call, \<open>loadConfigFinish\<close>, runs without interruption once the fetch
  has settled; other calls may start or finish in between. All waiting calls have the same rest,
  so a run is a sequence of events \<open>Call\<close> and \<open>Settle\<close>, the latter carrying what one
  waiting call received. \<open>fetches\<close> counts the fetches started, \<open>written\<close> lists what
  the cache holds after each assignment to it (a load that fails assigns nothing) and
  \<open>results\<close> the values returned, both in the order of time.
\<close>

datatype event = Call | Settle "config option fetched"

record run =
  thePage :: page
  waiting :: nat
  fetches :: nat
  written :: "config option list"
  results :: "config option list"

fun step :: "event \<Rightarrow> run \<Rightarrow> run" where
  "step Call r =
     (case siteConfig (thePage r) of
        Some cfg \<Rightarrow> r\<lparr>results := results r @ [Some cfg]\<rparr>
      | None \<Rightarrow> r\<lparr>waiting := Suc (waiting r), fetches := Suc (fetches r)\<rparr>)"
| "step (Settle response) r =
     (if waiting r = 0 then r
      else (case loadConfigFinish response (thePage r) of
              (v, pg) \<Rightarrow>
                r\<lparr>thePage := pg,
                  waiting := waiting r - 1,
                  written := (case response of Loaded _ \<Rightarrow> written r @ [siteConfig pg] | Failed \<Rightarrow> written r),
                  results := results r @ [v]\<rparr>))"

definition runEvents :: "event list \<Rightarrow> run \<Rightarrow> run" where
  "runEvents es r = foldl (\<lambda>r e. step e r) r es"

definition freshRun :: run where
  "freshRun = \<lparr>thePage = \<lparr>elements = Map.empty, console = [], siteConfig = None\<rparr>,
     waiting = 0, fetches = 0, written = [], results = []\<rparr>"

section \<open>Notions used in the statements and proofs\<close>

text \<open>The character before the position reached after reading \<open>s\<close>.\<close>

definition lastOr :: "jschar option \<Rightarrow> jsstring \<Rightarrow> jschar option" where
  "lastOr p s = (if s = [] then p else Some (last s))"

text \<open>The anchor that the link pattern's replacement text produces for a label \<open>t\<close> and a target \<open>u\<close>.\<close>

definition anchor :: "jsstring \<Rightarrow> jsstring \<Rightarrow> jsstring" where
  \<open>anchor t u = str ''<a href="'' @ u @ str ''" target="_blank">'' @ t @ str ''</a>''\<close>

text \<open>
  \<open>hasDouble x s\<close>: two adjacent \<open>x\<close> occur in \<open>s\<close>. For the line feed this is a blank line,
  the separator of \<^verbatim>\<open>parseMarkdown\<close>'s blocks.
\<close>

fun hasDouble :: "'a \<Rightarrow> 'a list \<Rightarrow> bool" where
  "hasDouble x (a # b # r) = ((a = x \<and> b = x) \<or> hasDouble x (b # r))"
| "hasDouble x _ = False"

text \<open>Text without the characters that start a match of the inline patterns.\<close>

definition plainText :: "jsstring \<Rightarrow> bool" where
  "plainText s \<longleftrightarrow> ch CHR ''['' \<notin> set s \<and> ch CHR ''*'' \<notin> set s"

text \<open>Text without the characters that start a match of a pattern of \<^verbatim>\<open>parseMarkdown\<close>'s inline stage.\<close>

definition markerFree :: "jsstring \<Rightarrow> bool" where
  "markerFree s \<longleftrightarrow> ch CHR ''#'' \<notin> set s \<and> ch CHR ''['' \<notin> set s \<and> ch CHR ''*'' \<notin> set s \<and> ch CHR ''_'' \<notin> set s"

text \<open>A prefix that no stage of \<^verbatim>\<open>parseMarkdown\<close> touches.\<close>

definition inert :: "jsstring \<Rightarrow> bool" where
  "inert pre \<longleftrightarrow> pre \<noteq> [] \<and> markerFree pre \<and> 0x0A \<notin> set pre \<and> hd pre \<noteq> ch CHR ''-'' \<and>
     \<not> isWhiteSpace (hd pre) \<and> \<not> isWhiteSpace (last pre)"

text \<open>\<open>infixOf c s\<close>: \<open>c\<close> is a piece of consecutive characters of \<open>s\<close>, as every capture is.\<close>

definition infixOf :: "'a list \<Rightarrow> 'a list \<Rightarrow> bool" where
  "infixOf c s \<longleftrightarrow> (\<exists>j n. c = take n (drop j s))"

text \<open>
  A replacement text is guarded against \<open>x\<close> when its expansion neither starts nor ends with
  \<open>x\<close> and has no two adjacent \<open>x\<close>, whatever captures without two adjacent \<open>x\<close> it is given.
\<close>

definition goodExp :: "'a \<Rightarrow> 'a list \<Rightarrow> bool" where
  "goodExp x e \<longleftrightarrow> e \<noteq> [] \<and> hd e \<noteq> x \<and> last e \<noteq> x \<and> \<not> hasDouble x e"

definition guardedTp :: "jschar \<Rightarrow> piece list \<Rightarrow> bool" where
  "guardedTp x tp \<longleftrightarrow> (\<forall>cp. (\<forall>i. \<not> hasDouble x (cp i)) \<longrightarrow> goodExp x (expand tp cp))"

text \<open>\<open>contains s d\<close>: the string \<open>d\<close> occurs in \<open>s\<close>.\<close>

fun contains :: "jsstring \<Rightarrow> jsstring \<Rightarrow> bool" where
  "contains [] d = (d = [])"
| "contains (y # ys) d = (startsWith (y # ys) d \<or> contains ys d)"

text \<open>The five prefixes tested on lines 132-134 of js/main.js.\<close>

definition blockTags :: "jsstring list" where
  "blockTags = [str ''<h'', str ''<figure'', str ''<ul'', str ''<ol'', str ''</'']"

text \<open>
  An entry has a valid start date when \<^verbatim>\<open>new Date\<close> gives a time value for it; \<open>startTime\<close>
  is that time value.
\<close>

definition validStart :: "platform \<Rightarrow> timelineItem \<Rightarrow> bool" where
  "validStart pf item = (case newDateOf pf (start_date item) of Inr (Some t) \<Rightarrow> True | _ \<Rightarrow> False)"

definition startTime :: "platform \<Rightarrow> timelineItem \<Rightarrow> int" where
  "startTime pf item = (case newDateOf pf (start_date item) of Inr (Some t) \<Rightarrow> t | _ \<Rightarrow> 0)"

text \<open>An entry renders when no statement of the callback throws on it.\<close>

definition renders :: "platform \<Rightarrow> timelineItem \<Rightarrow> bool" where
  "renders pf item = (case renderTimelineItem pf item of Inr html \<Rightarrow> True | Inl e \<Rightarrow> False)"

text \<open>
  The responses of a run all fail or parse to the one configuration \<open>cfg\<close>, as those of a
  file that does not change do.
\<close>

definition sameResponses :: "config \<Rightarrow> event list \<Rightarrow> bool" where
  "sameResponses cfg es \<longleftrightarrow> list_all (\<lambda>e. e = Call \<or> e = Settle Failed \<or> e = Settle (Loaded (Some cfg))) es"

text \<open>
  Calls that do not overlap: each call is made when the one before has returned. \<open>inTurn rs\<close>
  is the run of such calls in which the \<open>i\<close>-th call receives the response \<open>rs ! i\<close> if it
  fetches.
\<close>

definition inTurn :: "config option fetched list \<Rightarrow> event list" where
  "inTurn rs = concat (map (\<lambda>response. [Call, Settle response]) rs)"

section \<open>Example inputs\<close>

text \<open>
  A sort by insertion from the right, which meets the contract of \<^verbatim>\<open>Array.prototype.sort\<close>: it
  reads \<^verbatim>\<open>NaN\<close> as \<open>0\<close> and ends with what the comparator throws.
\<close>

fun insertBy :: "('a \<Rightarrow> 'a \<Rightarrow> exn + int option) \<Rightarrow> 'a \<Rightarrow> 'a list \<Rightarrow> exn + 'a list" where
  "insertBy cmp x [] = Inr [x]"
| "insertBy cmp x (y # ys) =
     bindE (cmp x y) (\<lambda>v.
       if (case v of Some n \<Rightarrow> n \<le> 0 | None \<Rightarrow> True) then Inr (x # y # ys)
       else bindE (insertBy cmp x ys) (\<lambda>r. Inr (y # r)))"

fun insertionSort :: "('a \<Rightarrow> 'a \<Rightarrow> exn + int option) \<Rightarrow> 'a list \<Rightarrow> exn + 'a list" where
  "insertionSort cmp [] = Inr []"
| "insertionSort cmp (x # xs) = bindE (insertionSort cmp xs) (insertBy cmp x)"

text \<open>
  A platform that knows three dates and sorts by insertion; timeline entries with strings in all
  fields but \<^verbatim>\<open>url\<close>; the number 2021 as a field; pages with and without a timeline list.
\<close>

definition examplePlatform :: platform where
  "examplePlatform = \<lparr>dateParse = (\<lambda>s. if s = str ''2020-03-01'' then Some 1583020800000
                                       else if s = str ''2021-03-01'' then Some 1614556800000
                                       else if s = str ''2022-03-01'' then Some 1646092800000 else None),
      fullYear = (\<lambda>t. if t = 1583020800000 then 2020 else if t = 1614556800000 then 2021 else 2022),
      toLocaleDateString = (\<lambda>_. []),
      arraySort = insertionSort\<rparr>"

definition exampleEntry :: "string \<Rightarrow> string \<Rightarrow> timelineItem" where
  "exampleEntry s e = \<lparr>start_date = Str (str s), end_date = Str (str e), description = Str (str ''Work''),
      url = Undefined, logo = Str (str ''logo.png''), organization = Str (str ''Lab'')\<rparr>"

definition number2021 :: jsval where
  "number2021 = Other \<lparr>asBoolean = True, asString = Inr (str ''2021''), asDate = Inr (Some 2021)\<rparr>"

text \<open>The markup of such an entry, as written in the template literal, for a given year range.\<close>

definition exampleMarkup :: "string \<Rightarrow> jsstring" where
  \<open>exampleMarkup years = concat
     [NL,
      str ''            <div class="timeline-item">'', NL,
      str ''                <div class="timeline-dot"></div>'', NL,
      str ''                <div class="timeline-year">'', str years, str ''</div>'', NL,
      str ''                <img src="logo.png" alt="Lab" class="timeline-logo">'', NL,
      str ''                <div class="timeline-content">'', NL,
      str ''                    <p class="timeline-description">Work</p>'', NL,
      str ''                </div>'', NL,
      str ''            </div>'', NL,
      str ''            '']\<close>

definition examplePage :: page where
  "examplePage = \<lparr>elements = [str ''timeline-list'' \<mapsto> []], console = [], siteConfig = None\<rparr>"

definition barePage :: page where
  "barePage = \<lparr>elements = Map.empty, console = [], siteConfig = None\<rparr>"

text \<open>A blog body with one \<^verbatim>\<open>h2\<close> and two \<^verbatim>\<open>h3\<close> between paragraphs, and one without headings.\<close>

definition exampleBody :: "domElement list" where
  "exampleBody =
      [\<lparr>tagName = str ''P'', elemId = [], textContent = str ''intro''\<rparr>,
       \<lparr>tagName = str ''H2'', elemId = [], textContent = str ''First''\<rparr>,
       \<lparr>tagName = str ''H3'', elemId = [], textContent = str ''Sub a''\<rparr>,
       \<lparr>tagName = str ''P'', elemId = [], textContent = str ''text''\<rparr>,
       \<lparr>tagName = str ''H3'', elemId = [], textContent = str ''Sub b''\<rparr>]"

definition exampleDoc :: blogDom where
  "exampleDoc = \<lparr>blogBody = Some exampleBody, tocList = Some [], blogToc = Some [], scrollListeners = 0\<rparr>"

definition plainDoc :: blogDom where
  "plainDoc = \<lparr>blogBody = Some (take 1 exampleBody), tocList = Some [], blogToc = Some [], scrollListeners = 0\<rparr>"

text \<open>Two configurations, and the run in which one call has loaded the first.\<close>

definition exampleConfig :: config where
  "exampleConfig = \<lparr>contacts = Some []\<rparr>"

definition otherConfig :: config where
  "otherConfig = \<lparr>contacts = None\<rparr>"

definition loadedRun :: run where
  "loadedRun = runEvents [Call, Settle (Loaded (Some exampleConfig))] freshRun"

section \<open>Properties of the matcher\<close>

lemma replaceAll_Nil: "exec ml re p [] = None \<Longrightarrow> replaceAll ml re tp p [] = []"
  by simp

lemma replaceAll_skip:
  "exec ml re p (y # ys) = None \<Longrightarrow> replaceAll ml re tp p (y # ys) = y # replaceAll ml re tp (Some y) ys"
  by simp

lemma replaceAll_match:
  "exec ml re p s = Some (p', s', cp) \<Longrightarrow> length s' < length s \<Longrightarrow>
   replaceAll ml re tp p s = expand tp cp @ replaceAll ml re tp p' s'"
  by simp

declare replaceAll.simps [simp del]

lemma lastOr_simps [simp]: "lastOr p [] = p" "lastOr p (y # ys) = lastOr (Some y) ys"
  by (auto simp: lastOr_def)

lemma replaceAll_prefix:
  "(\<And>q k. k < length pre \<Longrightarrow> exec ml re q (drop k (pre @ rest)) = None) \<Longrightarrow>
   replaceAll ml re tp p (pre @ rest) = pre @ replaceAll ml re tp (lastOr p pre) rest"
proof (induction pre arbitrary: p)
  case Nil
  then show ?case by simp
next
  case (Cons y ys)
  have h: "exec ml re p (y # ys @ rest) = None"
    using Cons.prems [of 0 p] by simp
  have "replaceAll ml re tp (Some y) (ys @ rest) = ys @ replaceAll ml re tp (lastOr (Some y) ys) rest"
  proof (rule Cons.IH)
    fix q k assume "k < length ys"
    then show "exec ml re q (drop k (ys @ rest)) = None"
      using Cons.prems [of "Suc k" q] by simp
  qed
  with h show ?case by (simp add: replaceAll_skip)
qed

lemma exec_Lit_None:
  "(case t of [] \<Rightarrow> True | y # _ \<Rightarrow> y \<noteq> x) \<Longrightarrow> exec ml (Lit x # as) q t = None"
  by (auto simp: exec_def split: list.splits)

lemma exec_Bol_Lit_None:
  "(case t of [] \<Rightarrow> True | y # _ \<Rightarrow> y \<noteq> x) \<Longrightarrow> exec ml (Bol # Lit x # as) q t = None"
  by (auto simp: exec_def split: list.splits)

lemma drop_in_set: "k < length pre \<Longrightarrow> (case drop k (pre @ rest) of [] \<Rightarrow> True | y # _ \<Rightarrow> y \<noteq> x) \<or> x \<in> set pre"
proof (induction pre arbitrary: k)
  case Nil
  then show ?case by simp
next
  case (Cons a pre)
  then show ?case by (cases k) auto
qed

lemma replaceAll_absent_prefix:
  assumes "x \<notin> set pre"
  shows "replaceAll ml (Lit x # as) tp p (pre @ rest) = pre @ replaceAll ml (Lit x # as) tp (lastOr p pre) rest"
proof (rule replaceAll_prefix)
  fix q k assume "k < length pre"
  with assms drop_in_set [where k=k and pre=pre and rest=rest and x=x]
  show "exec ml (Lit x # as) q (drop k (pre @ rest)) = None"
    by (auto intro: exec_Lit_None)
qed

lemma replaceAll_absent:
  assumes "x \<notin> set s"
  shows "replaceAll ml (Lit x # as) tp p s = s"
  using replaceAll_absent_prefix [OF assms, of ml as tp p "[]"]
  by (simp add: replaceAll_Nil exec_Lit_None)

lemma runs_split:
  "\<forall>c\<in>set t. P c \<Longrightarrow> (case r of [] \<Rightarrow> True | c # _ \<Rightarrow> \<not> P c) \<Longrightarrow>
   \<exists>A. runs P p (t @ r) = A @ [(lastOr p t, r)] \<and> length A = length t"
proof (induction t arbitrary: p)
  case Nil
  then show ?case by (cases r) auto
next
  case (Cons a t)
  from Cons.IH [of "Some a"] Cons.prems
  obtain A where "runs P (Some a) (t @ r) = A @ [(lastOr (Some a) t, r)]" "length A = length t"
    by auto
  with Cons.prems show ?case
    by (intro exI [of _ "(p, a # t @ r) # A"]) simp
qed

lemma matchSeq_Plus_greedy:
  assumes "t \<noteq> []" "\<forall>c\<in>set t. P c" "case r of [] \<Rightarrow> True | c # _ \<Rightarrow> \<not> P c"
    and "matchSeq ml as (Some (last t)) r mk cp = Some v"
  shows "matchSeq ml (Plus P # as) p (t @ r) mk cp = Some v"
proof -
  from runs_split [OF assms(2,3), of p]
  obtain A where A: "runs P p (t @ r) = A @ [(lastOr p t, r)]" "length A = length t"
    by auto
  with assms(1) have "A \<noteq> []" by auto
  with A have "rev (tl (runs P p (t @ r))) = (lastOr p t, r) # rev (tl A)"
    by simp
  with assms(1,4) show ?thesis
    by (simp add: lastOr_def matchSeq_Plus)
qed

lemma exec_link:
  assumes "t \<noteq> []" "ch CHR '']'' \<notin> set t" "u \<noteq> []" "ch CHR '')'' \<notin> set u"
  shows "exec False (atoms linkRe) p (ch CHR ''['' # t @ str '']('' @ u @ ch CHR '')'' # rest)
         = Some (Some (ch CHR '')''), rest, (\<lambda>_. [])(1 := t, 2 := u))"
proof -
  let ?mk1 = "(\<lambda>_. [])(1 := t @ 93 # 40 # u @ 41 # rest) :: captures"
  let ?cp1 = "(\<lambda>_. [])(1 := t) :: captures"
  let ?mk2 = "?mk1(2 := u @ 41 # rest)"
  let ?res = "Some (Some (41::jschar), rest, ?cp1(2 := u))"
  have "matchSeq False [Close 2, Lit 41] (Some (last u)) (41 # rest) ?mk2 ?cp1 = ?res"
    by simp
  with assms(3,4)
  have "matchSeq False (Plus (\<lambda>c. c \<noteq> 41) # [Close 2, Lit 41]) (Some 40) (u @ 41 # rest) ?mk2 ?cp1 = ?res"
    by (intro matchSeq_Plus_greedy) auto
  then have "matchSeq False [Close 1, Lit 93, Lit 40, Open 2, Plus (\<lambda>c. c \<noteq> 41), Close 2, Lit 41]
      (Some (last t)) (93 # 40 # u @ 41 # rest) ?mk1 (\<lambda>_. []) = ?res"
    by simp
  with assms(1,2)
  have "matchSeq False (Plus (\<lambda>c. c \<noteq> 93) # [Close 1, Lit 93, Lit 40, Open 2, Plus (\<lambda>c. c \<noteq> 41), Close 2, Lit 41])
      (Some 91) (t @ 93 # 40 # u @ 41 # rest) ?mk1 (\<lambda>_. []) = ?res"
    by (intro matchSeq_Plus_greedy) auto
  then show ?thesis
    by (simp add: exec_def linkRe_def str_def)
qed

lemma exec_bold:
  assumes "t \<noteq> []" "ch CHR ''*'' \<notin> set t"
  shows "exec False (atoms boldRe) p (str ''**'' @ t @ str ''**'' @ rest)
         = Some (Some (ch CHR ''*''), rest, (\<lambda>_. [])(1 := t))"
proof -
  let ?mk1 = "(\<lambda>_. [])(1 := t @ 42 # 42 # rest) :: captures"
  let ?res = "Some (Some (42::jschar), rest, (\<lambda>_. [])(1 := t))"
  have "matchSeq False [Close 1, Lit 42, Lit 42] (Some (last t)) (42 # 42 # rest) ?mk1 (\<lambda>_. []) = ?res"
    by simp
  with assms
  have "matchSeq False (Plus (\<lambda>c. c \<noteq> 42) # [Close 1, Lit 42, Lit 42]) (Some 42) (t @ 42 # 42 # rest) ?mk1 (\<lambda>_. []) = ?res"
    by (intro matchSeq_Plus_greedy) auto
  then show ?thesis
    by (simp add: exec_def boldRe_def str_def)
qed

lemma exec_italic:
  assumes "t \<noteq> []" "ch CHR ''*'' \<notin> set t"
  shows "exec False (atoms italicRe) p (ch CHR ''*'' # t @ ch CHR ''*'' # rest)
         = Some (Some (ch CHR ''*''), rest, (\<lambda>_. [])(1 := t))"
proof -
  let ?mk1 = "(\<lambda>_. [])(1 := t @ 42 # rest) :: captures"
  let ?res = "Some (Some (42::jschar), rest, (\<lambda>_. [])(1 := t))"
  have "matchSeq False [Close 1, Lit 42] (Some (last t)) (42 # rest) ?mk1 (\<lambda>_. []) = ?res"
    by simp
  with assms
  have "matchSeq False (Plus (\<lambda>c. c \<noteq> 42) # [Close 1, Lit 42]) (Some 42) (t @ 42 # rest) ?mk1 (\<lambda>_. []) = ?res"
    by (intro matchSeq_Plus_greedy) auto
  then show ?thesis
    by (simp add: exec_def italicRe_def str_def)
qed

lemma link_pass:
  assumes "ch CHR ''['' \<notin> set pre" "t \<noteq> []" "ch CHR '']'' \<notin> set t" "u \<noteq> []" "ch CHR '')'' \<notin> set u"
     "ch CHR ''['' \<notin> set post"
  shows "replace (pre @ ch CHR ''['' # t @ str '']('' @ u @ ch CHR '')'' # post) linkRe linkTp
       = pre @ anchor t u @ post"
proof -
  have "replaceAll False (atoms linkRe) linkTp (lastOr None pre) (ch CHR ''['' # t @ str '']('' @ u @ ch CHR '')'' # post)
      = expand linkTp ((\<lambda>_. [])(1 := t, 2 := u)) @ replaceAll False (atoms linkRe) linkTp (Some (ch CHR '')'')) post"
    by (rule replaceAll_match [OF exec_link [OF assms(2-5)]]) simp
  moreover have "replaceAll False (atoms linkRe) linkTp (Some (ch CHR '')'')) post = post"
    using assms(6) by (simp add: linkRe_def replaceAll_absent)
  moreover have "replaceAll False (atoms linkRe) linkTp None (pre @ ch CHR ''['' # t @ str '']('' @ u @ ch CHR '')'' # post)
     = pre @ replaceAll False (atoms linkRe) linkTp (lastOr None pre) (ch CHR ''['' # t @ str '']('' @ u @ ch CHR '')'' # post)"
    using assms(1) by (simp add: linkRe_def replaceAll_absent_prefix)
  ultimately show ?thesis
    by (simp add: replace_def linkRe_def linkTp_def anchor_def)
qed

lemma hasDouble_Cons_other [simp]: "y \<noteq> x \<Longrightarrow> hasDouble x (y # s) = hasDouble x s"
  by (cases s) auto

lemma hasDouble_Cons_same: "hasDouble x (x # s) = ((s \<noteq> [] \<and> hd s = x) \<or> hasDouble x s)"
  by (cases s) auto

lemma hasDouble_absent [simp]: "x \<notin> set s \<Longrightarrow> \<not> hasDouble x s"
  by (induction s) auto

lemma hasDouble_append_absent [simp]: "x \<notin> set pre \<Longrightarrow> hasDouble x (pre @ s) = hasDouble x s"
  by (induction pre) auto

lemma hasDouble_Cons: "hasDouble x s \<Longrightarrow> hasDouble x (a # s)"
  by (cases s) auto

lemma hasDouble_drop_front:
  "\<not> hasDouble x s \<Longrightarrow> (case drop k s of a # b # _ \<Rightarrow> \<not> (a = x \<and> b = x) | _ \<Rightarrow> True)"
proof (induction s arbitrary: k)
  case Nil
  then show ?case by simp
next
  case (Cons a s)
  show ?case
  proof (cases k)
    case 0
    with Cons.prems show ?thesis by (cases s) auto
  next
    case (Suc j)
    from Cons.prems hasDouble_Cons [of x s a] have "\<not> hasDouble x s"
      by blast
    from Cons.IH [OF this, of j] Suc show ?thesis by simp
  qed
qed

lemma exec_LitLit_None:
  "(case t of a # b # _ \<Rightarrow> \<not> (a = x \<and> b = x) | _ \<Rightarrow> True) \<Longrightarrow> exec ml (Lit x # Lit x # as) q t = None"
  by (auto simp: exec_def split: list.splits)

lemma replaceAll_noDouble:
  assumes "\<not> hasDouble x s"
  shows "replaceAll ml (Lit x # Lit x # as) tp p s = s"
proof -
  have "replaceAll ml (Lit x # Lit x # as) tp p (s @ []) = s @ replaceAll ml (Lit x # Lit x # as) tp (lastOr p s) []"
  proof (rule replaceAll_prefix)
    fix q k
    show "exec ml (Lit x # Lit x # as) q (drop k (s @ [])) = None"
      using hasDouble_drop_front [OF assms, of k] by (simp add: exec_LitLit_None)
  qed
  then show ?thesis
    by (simp add: replaceAll_Nil exec_LitLit_None)
qed

lemma bold_pass:
  assumes "ch CHR ''*'' \<notin> set pre" "t \<noteq> []" "ch CHR ''*'' \<notin> set t" "ch CHR ''*'' \<notin> set post"
  shows "replace (pre @ str ''**'' @ t @ str ''**'' @ post) boldRe boldTp
       = pre @ str ''<strong>'' @ t @ str ''</strong>'' @ post"
proof -
  have "replaceAll False (atoms boldRe) boldTp (lastOr None pre) (str ''**'' @ t @ str ''**'' @ post)
      = expand boldTp ((\<lambda>_. [])(1 := t)) @ replaceAll False (atoms boldRe) boldTp (Some (ch CHR ''*'')) post"
    by (rule replaceAll_match [OF exec_bold [OF assms(2,3)]]) (simp add: str_def)
  moreover have "replaceAll False (atoms boldRe) boldTp (Some (ch CHR ''*'')) post = post"
    using assms(4) by (simp add: boldRe_def replaceAll_absent)
  moreover have "replaceAll False (atoms boldRe) boldTp None (pre @ str ''**'' @ t @ str ''**'' @ post)
     = pre @ replaceAll False (atoms boldRe) boldTp (lastOr None pre) (str ''**'' @ t @ str ''**'' @ post)"
    using assms(1) by (simp add: boldRe_def replaceAll_absent_prefix)
  ultimately show ?thesis
    by (simp add: replace_def boldRe_def boldTp_def)
qed

lemma italic_pass:
  assumes "ch CHR ''*'' \<notin> set pre" "t \<noteq> []" "ch CHR ''*'' \<notin> set t" "ch CHR ''*'' \<notin> set post"
  shows "replace (pre @ ch CHR ''*'' # t @ ch CHR ''*'' # post) italicRe italicTp
       = pre @ str ''<em>'' @ t @ str ''</em>'' @ post"
proof -
  have "replaceAll False (atoms italicRe) italicTp (lastOr None pre) (ch CHR ''*'' # t @ ch CHR ''*'' # post)
      = expand italicTp ((\<lambda>_. [])(1 := t)) @ replaceAll False (atoms italicRe) italicTp (Some (ch CHR ''*'')) post"
    by (rule replaceAll_match [OF exec_italic [OF assms(2,3)]]) simp
  moreover have "replaceAll False (atoms italicRe) italicTp (Some (ch CHR ''*'')) post = post"
    using assms(4) by (simp add: italicRe_def replaceAll_absent)
  moreover have "replaceAll False (atoms italicRe) italicTp None (pre @ ch CHR ''*'' # t @ ch CHR ''*'' # post)
     = pre @ replaceAll False (atoms italicRe) italicTp (lastOr None pre) (ch CHR ''*'' # t @ ch CHR ''*'' # post)"
    using assms(1) by (simp add: italicRe_def replaceAll_absent_prefix)
  ultimately show ?thesis
    by (simp add: replace_def italicRe_def italicTp_def)
qed

lemma link_id: "ch CHR ''['' \<notin> set s \<Longrightarrow> replace s linkRe linkTp = s"
  by (simp add: replace_def linkRe_def replaceAll_absent)

lemma bold_id: "\<not> hasDouble (ch CHR ''*'') s \<Longrightarrow> replace s boldRe boldTp = s"
  by (simp add: replace_def boldRe_def replaceAll_noDouble)

lemma italic_id: "ch CHR ''*'' \<notin> set s \<Longrightarrow> replace s italicRe italicTp = s"
  by (simp add: replace_def italicRe_def replaceAll_absent)

lemma single_star_noDouble:
  assumes "x \<notin> set pre" "t \<noteq> []" "x \<notin> set t" "x \<notin> set post"
  shows "\<not> hasDouble x (pre @ x # t @ x # post)"
proof -
  from assms(2,3) have "hasDouble x (x # t @ x # post) = hasDouble x (x # post)"
    by (cases t) auto
  also from assms(4) have "\<dots> = False"
    by (cases post) auto
  finally show ?thesis using assms(1) by simp
qed


lemma anchor_no_star: "ch CHR ''*'' \<notin> set t \<Longrightarrow> ch CHR ''*'' \<notin> set u \<Longrightarrow> ch CHR ''*'' \<notin> set (anchor t u)"
  by (simp add: anchor_def str_def)


lemma hasDouble_append:
  "hasDouble x (xs @ ys) \<longleftrightarrow>
     hasDouble x xs \<or> hasDouble x ys \<or> (xs \<noteq> [] \<and> ys \<noteq> [] \<and> last xs = x \<and> hd ys = x)"
proof (induction xs)
  case Nil
  then show ?case by simp
next
  case (Cons a xs)
  show ?case
  proof (cases "a = x")
    case True
    with Cons show ?thesis
      by (cases xs; cases ys) (auto simp: hasDouble_Cons_same)
  next
    case False
    with Cons show ?thesis by auto
  qed
qed

lemma hasDouble_drop: "hasDouble x (drop k s) \<Longrightarrow> hasDouble x s"
  by (metis append_take_drop_id hasDouble_append)

lemma hasDouble_take: "hasDouble x (take k s) \<Longrightarrow> hasDouble x s"
  by (metis append_take_drop_id hasDouble_append)

lemma infixOf_Nil [simp]: "infixOf [] s"
  unfolding infixOf_def by (intro exI [of _ 0]) simp

lemma infixOf_hasDouble:
  assumes "infixOf c s" "\<not> hasDouble x s"
  shows "\<not> hasDouble x c"
proof
  assume h: "hasDouble x c"
  from assms(1) obtain j n where "c = take n (drop j s)"
    unfolding infixOf_def by blast
  with h have "hasDouble x (take n (drop j s))"
    by simp
  then have "hasDouble x (drop j s)"
    by (rule hasDouble_take)
  then have "hasDouble x s"
    by (rule hasDouble_drop)
  with assms(2) show False ..
qed

lemma matchSeq_caps:
  assumes "matchSeq ml re p s mk cp = Some (p', s', cp')"
    and "\<forall>i. \<exists>j. mk i = drop j s0" "\<exists>j. s = drop j s0" "\<forall>i. infixOf (cp i) s0"
  shows "\<forall>i. infixOf (cp' i) s0"
  using assms
proof (induction re arbitrary: p s mk cp)
  case Nil
  then show ?case by simp
next
  case (Cons a as)
  have viaruns: "\<forall>i. infixOf (cp' i) s0"
    if "first_some (\<lambda>(q, t). matchSeq ml as q t mk cp) xs = Some (p', s', cp')"
       "set xs \<subseteq> set (runs P p s)" for xs P
  proof -
    from that obtain q t k where m: "matchSeq ml as q t mk cp = Some (p', s', cp')" and "t = drop k s"
      by (rule first_some_runs)
    note \<open>t = drop k s\<close>
    moreover from Cons.prems(3) obtain j where "s = drop j s0" ..
    ultimately have "t = drop (k + j) s0"
      by simp
    then have "\<exists>j. t = drop j s0" ..
    from Cons.IH [OF m Cons.prems(2) this Cons.prems(4)] show ?thesis .
  qed
  show ?case
  proof (cases a)
    case (Lit x)
    with Cons.prems(1) obtain y ys where s: "s = y # ys"
      and m: "matchSeq ml as (Some y) ys mk cp = Some (p', s', cp')"
      by (cases s) (auto split: if_splits)
    from Cons.prems(3) obtain j where "s = drop j s0" ..
    then have "tl s = drop (Suc j) s0"
      by (simp only: drop_Suc tl_drop)
    with s have "ys = drop (Suc j) s0"
      by simp
    then have "\<exists>j. ys = drop j s0" ..
    from Cons.IH [OF m Cons.prems(2) this Cons.prems(4)] show ?thesis .
  next
    case (Plus P)
    with Cons.prems(1) have "first_some (\<lambda>(q, t). matchSeq ml as q t mk cp) (rev (tl (runs P p s))) = Some (p', s', cp')"
      by (simp add: matchSeq_Plus)
    moreover have "set (rev (tl (runs P p s))) \<subseteq> set (runs P p s)"
      by (cases "runs P p s") auto
    ultimately show ?thesis by (rule viaruns)
  next
    case (Star P)
    with Cons.prems(1) have "first_some (\<lambda>(q, t). matchSeq ml as q t mk cp) (rev (runs P p s)) = Some (p', s', cp')"
      by (simp add: matchSeq_Star)
    moreover have "set (rev (runs P p s)) \<subseteq> set (runs P p s)"
      by simp
    ultimately show ?thesis by (rule viaruns)
  next
    case (LazyStar P)
    with Cons.prems(1) have "first_some (\<lambda>(q, t). matchSeq ml as q t mk cp) (runs P p s) = Some (p', s', cp')"
      by (simp add: matchSeq_LazyStar)
    moreover have "set (runs P p s) \<subseteq> set (runs P p s)"
      by simp
    ultimately show ?thesis by (rule viaruns)
  next
    case Bol
    with Cons.prems(1) have "matchSeq ml as p s mk cp = Some (p', s', cp')"
      by (simp split: if_splits)
    from Cons.IH [OF this Cons.prems(2-4)] show ?thesis .
  next
    case Eol
    with Cons.prems(1) have "matchSeq ml as p s mk cp = Some (p', s', cp')"
      by (simp split: if_splits)
    from Cons.IH [OF this Cons.prems(2-4)] show ?thesis .
  next
    case WordB
    with Cons.prems(1) have "matchSeq ml as p s mk cp = Some (p', s', cp')"
      by (simp split: if_splits)
    from Cons.IH [OF this Cons.prems(2-4)] show ?thesis .
  next
    case (Open k)
    with Cons.prems(1) have m: "matchSeq ml as p s (mk(k := s)) cp = Some (p', s', cp')"
      by simp
    from Cons.prems(2,3) have "\<forall>i. \<exists>j. (mk(k := s)) i = drop j s0"
      by simp
    from Cons.IH [OF m this Cons.prems(3,4)] show ?thesis .
  next
    case (Close k)
    let ?c = "take (length (mk k) - length s) (mk k)"
    from Close Cons.prems(1) have m: "matchSeq ml as p s mk (cp(k := ?c)) = Some (p', s', cp')"
      by simp
    from Cons.prems(2) obtain j where "mk k = drop j s0"
      by blast
    then have "?c = take (length (mk k) - length s) (drop j s0)"
      by simp
    then have "infixOf ?c s0"
      unfolding infixOf_def by blast
    with Cons.prems(4) have "\<forall>i. infixOf ((cp(k := ?c)) i) s0"
      by simp
    from Cons.IH [OF m Cons.prems(2,3) this] show ?thesis .
  qed
qed

lemma exec_caps:
  assumes "exec ml re p s = Some (p', s', cp)"
  shows "infixOf (cp i) s"
proof -
  have "\<forall>i. infixOf (cp i) s"
  proof (rule matchSeq_caps)
    show "matchSeq ml re p s (\<lambda>_. []) (\<lambda>_. []) = Some (p', s', cp)"
      using assms by (simp add: exec_def)
    show "\<forall>i. \<exists>j. (\<lambda>_. []) i = drop j s"
      by (intro allI exI [of _ "length s"]) simp
    show "\<exists>j. s = drop j s"
      by (intro exI [of _ 0]) simp
    show "\<forall>i. infixOf ((\<lambda>_. []) i) s"
      by simp
  qed
  then show ?thesis ..
qed

lemma replaceAll_stuck:
  "exec ml re p s = Some (p', s', cp) \<Longrightarrow> \<not> length s' < length s \<Longrightarrow>
   replaceAll ml re tp p s =
     expand tp cp @ (case s of [] \<Rightarrow> [] | y # ys \<Rightarrow> y # replaceAll ml re tp (Some y) ys)"
  by (simp add: replaceAll.simps [of ml re tp p s])

lemma noDouble_Cons_out:
  assumes "\<not> hasDouble x (y # ys)" "\<not> hasDouble x out"
    and "out \<noteq> [] \<and> hd out = x \<longrightarrow> ys \<noteq> [] \<and> hd ys = x"
  shows "\<not> hasDouble x (y # out)"
proof (cases "y = x")
  case True
  with assms show ?thesis
    by (auto simp: hasDouble_Cons_same)
next
  case False
  with assms show ?thesis by simp
qed

lemma noDouble_exp_append:
  assumes "goodExp x e" "\<not> hasDouble x out"
  shows "\<not> hasDouble x (e @ out)" "e @ out \<noteq> []" "hd (e @ out) \<noteq> x"
  using assms by (auto simp: goodExp_def hasDouble_append)

lemma replaceAll_keeps_noDouble:
  assumes g: "guardedTp x tp"
  shows "\<not> hasDouble x s \<Longrightarrow>
     \<not> hasDouble x (replaceAll ml re tp p s) \<and>
     (replaceAll ml re tp p s \<noteq> [] \<and> hd (replaceAll ml re tp p s) = x \<longrightarrow> s \<noteq> [] \<and> hd s = x)"
proof (induction "length s" arbitrary: s p rule: less_induct)
  case less
  let ?out = "replaceAll ml re tp p s"
  have tail: "\<not> hasDouble x (case s of [] \<Rightarrow> [] | y # ys \<Rightarrow> y # replaceAll ml re tp (Some y) ys) \<and>
     ((case s of [] \<Rightarrow> [] | y # ys \<Rightarrow> y # replaceAll ml re tp (Some y) ys) \<noteq> [] \<longrightarrow> s \<noteq> [] \<and>
        hd (case s of [] \<Rightarrow> [] | y # ys \<Rightarrow> y # replaceAll ml re tp (Some y) ys) = hd s)"
  proof (cases s)
    case Nil
    then show ?thesis by simp
  next
    case (Cons y ys)
    with less.prems hasDouble_Cons [of x ys y] have nys: "\<not> hasDouble x ys"
      by blast
    from Cons have "length ys < length s" by simp
    from less.hyps [OF this nys, of "Some y"]
    have ih: "\<not> hasDouble x (replaceAll ml re tp (Some y) ys)"
      and ih2: "replaceAll ml re tp (Some y) ys \<noteq> [] \<and> hd (replaceAll ml re tp (Some y) ys) = x
          \<longrightarrow> ys \<noteq> [] \<and> hd ys = x"
      by blast+
    from less.prems Cons have "\<not> hasDouble x (y # ys)"
      by simp
    from noDouble_Cons_out [OF this ih ih2] Cons show ?thesis
      by simp
  qed
  show ?case
  proof (cases "exec ml re p s")
    case None
    then have "?out = (case s of [] \<Rightarrow> [] | y # ys \<Rightarrow> y # replaceAll ml re tp (Some y) ys)"
      by (cases s) (simp_all add: replaceAll_Nil replaceAll_skip)
    with tail show ?thesis by auto
  next
    case (Some r)
    then obtain p' s' cp where r: "exec ml re p s = Some (p', s', cp)"
      by (cases r) auto
    have "\<forall>i. \<not> hasDouble x (cp i)"
      using infixOf_hasDouble [OF exec_caps [OF r] less.prems] by blast
    with g have ge: "goodExp x (expand tp cp)"
      by (simp add: guardedTp_def)
    show ?thesis
    proof (cases "length s' < length s")
      case True
      from exec_drop [OF r] obtain k where "s' = drop k s" ..
      with less.prems hasDouble_drop [of x k s] have "\<not> hasDouble x s'"
        by blast
      from less.hyps [OF True this, of p'] have "\<not> hasDouble x (replaceAll ml re tp p' s')"
        by simp
      from noDouble_exp_append [OF ge this] replaceAll_match [OF r True, of tp]
      show ?thesis by simp
    next
      case False
      from tail have "\<not> hasDouble x (case s of [] \<Rightarrow> [] | y # ys \<Rightarrow> y # replaceAll ml re tp (Some y) ys)"
        by simp
      from noDouble_exp_append [OF ge this] replaceAll_stuck [OF r False, of tp]
      show ?thesis by simp
    qed
  qed
qed

lemma goodExp_txt:
  assumes "a \<noteq> []" "x \<notin> set a"
  shows "goodExp x a"
proof -
  from assms have "hd a \<noteq> x" "last a \<noteq> x"
    using hd_in_set [of a] last_in_set [of a] by auto
  with assms show ?thesis
    by (simp add: goodExp_def)
qed

lemma goodExp_txt_grp:
  assumes "a \<noteq> []" "x \<notin> set a" "\<not> hasDouble x m" "goodExp x e"
  shows "goodExp x (a @ m @ e)"
proof -
  from assms(1,2) have "hd a \<noteq> x"
    using hd_in_set [of a] by auto
  moreover from assms(3,4) have "\<not> hasDouble x (m @ e)"
    by (auto simp: goodExp_def hasDouble_append)
  ultimately show ?thesis
    using assms by (simp add: goodExp_def)
qed

lemma guardedTp_tag:
  assumes "a \<noteq> []" "x \<notin> set a" "b \<noteq> []" "x \<notin> set b"
  shows "guardedTp x [Txt a, Grp k, Txt b]"
  using goodExp_txt_grp [OF assms(1,2) _ goodExp_txt [OF assms(3,4)]]
  by (simp add: guardedTp_def)

lemma guardedTp_link:
  assumes "a \<noteq> []" "x \<notin> set a" "b \<noteq> []" "x \<notin> set b" "c \<noteq> []" "x \<notin> set c"
  shows "guardedTp x [Txt a, Grp k, Txt b, Grp j, Txt c]"
  using goodExp_txt_grp [OF assms(1,2) _ goodExp_txt_grp [OF assms(3,4) _ goodExp_txt [OF assms(5,6)]]]
  by (simp add: guardedTp_def)

lemma guarded_templates:
  "guardedTp 0x0A linkTp" "guardedTp 0x0A boldTp" "guardedTp 0x0A italicTp"
  "guardedTp 0x0A h1Tp" "guardedTp 0x0A h2Tp" "guardedTp 0x0A h3Tp"
  unfolding linkTp_def boldTp_def italicTp_def h1Tp_def h2Tp_def h3Tp_def
  by (rule guardedTp_tag guardedTp_link; simp add: str_def)+

lemma replace_global_keeps_noDouble:
  assumes "guardedTp x tp" "globalFlag re" "\<not> hasDouble x s"
  shows "\<not> hasDouble x (replace s re tp)"
  using replaceAll_keeps_noDouble [OF assms(1,3)] assms(2) by (simp add: replace_def)

lemma replaceFirst_Nil: "exec ml re p [] = None \<Longrightarrow> replaceFirst ml re tp p [] = []"
  by simp

lemma replaceFirst_skip:
  "exec ml re p (y # ys) = None \<Longrightarrow> replaceFirst ml re tp p (y # ys) = y # replaceFirst ml re tp (Some y) ys"
  by simp

lemma replaceFirst_match:
  "exec ml re p s = Some (p', s', cp) \<Longrightarrow> replaceFirst ml re tp p s = expand tp cp @ s'"
  by simp

declare replaceFirst.simps [simp del]

lemma exec_Bol_after: "exec False (Bol # as) (Some c) t = None"
  by (simp add: exec_def atLineStart_def)

lemma replaceFirst_Bol_after: "replaceFirst False (Bol # as) tp (Some c) s = s"
  by (induction s arbitrary: c) (simp_all add: replaceFirst_Nil replaceFirst_skip exec_Bol_after)

lemma replaceFirst_Bol:
  "replaceFirst False (Bol # as) tp p s =
     (case exec False (Bol # as) p s of Some (p', s', cp) \<Rightarrow> expand tp cp @ s' | None \<Rightarrow> s)"
proof (cases "exec False (Bol # as) p s")
  case None
  then show ?thesis
    by (cases s) (simp_all add: replaceFirst_Nil replaceFirst_skip replaceFirst_Bol_after)
next
  case (Some r)
  then show ?thesis
    by (cases r) (simp add: replaceFirst_match)
qed

lemma stripFrontmatter_cases:
  "replace s frontmatterRe [] = s \<or> (\<exists>k. replace s frontmatterRe [] = drop k s)"
proof (cases "exec False (atoms frontmatterRe) None s")
  case None
  then show ?thesis
    by (simp add: replace_def frontmatterRe_def replaceFirst_Bol)
next
  case (Some r)
  then obtain p' s' cp where r: "exec False (atoms frontmatterRe) None s = Some (p', s', cp)"
    by (cases r) auto
  from exec_drop [OF r] obtain k where "s' = drop k s" ..
  with r have "replace s frontmatterRe [] = drop k s"
    by (simp add: replace_def frontmatterRe_def replaceFirst_Bol)
  then show ?thesis by blast
qed

lemma stripFrontmatter_keeps_noDouble:
  assumes "\<not> hasDouble x s"
  shows "\<not> hasDouble x (replace s frontmatterRe [])"
  using stripFrontmatter_cases [of s] assms hasDouble_drop [of x _ s] by auto

lemma inlineHtml_keeps_noDouble:
  assumes "\<not> hasDouble 0x0A s"
  shows "\<not> hasDouble 0x0A (inlineHtml s)"
proof -
  have g: "globalFlag h3Re" "globalFlag h2Re" "globalFlag h1Re" "globalFlag linkRe"
    "globalFlag boldRe" "globalFlag underscoreRe" "globalFlag italicRe"
    by (simp_all add: h3Re_def h2Re_def h1Re_def linkRe_def boldRe_def underscoreRe_def italicRe_def)
  note k = replace_global_keeps_noDouble
  note t = guarded_templates
  from k [OF t(6) g(1) assms] have "\<not> hasDouble 0x0A (replace s h3Re h3Tp)" .
  from k [OF t(5) g(2) this] have "\<not> hasDouble 0x0A (replace (replace s h3Re h3Tp) h2Re h2Tp)" .
  from k [OF t(4) g(3) this] have "\<not> hasDouble 0x0A (replace (replace (replace s h3Re h3Tp) h2Re h2Tp) h1Re h1Tp)" .
  from k [OF t(1) g(4) this] have "\<not> hasDouble 0x0A (replace (replace (replace (replace s h3Re h3Tp) h2Re h2Tp) h1Re h1Tp) linkRe linkTp)" .
  from k [OF t(2) g(5) this] have "\<not> hasDouble 0x0A (replace (replace (replace (replace (replace s h3Re h3Tp) h2Re h2Tp) h1Re h1Tp) linkRe linkTp) boldRe boldTp)" .
  from k [OF t(2) g(6) this] have "\<not> hasDouble 0x0A (replace (replace (replace (replace (replace (replace s h3Re h3Tp) h2Re h2Tp) h1Re h1Tp) linkRe linkTp) boldRe boldTp) underscoreRe boldTp)" .
  from k [OF t(3) g(7) this] have "\<not> hasDouble 0x0A (replace (replace (replace (replace (replace (replace (replace s h3Re h3Tp) h2Re h2Tp) h1Re h1Tp) linkRe linkTp) boldRe boldTp) underscoreRe boldTp) italicRe italicTp)" .
  then show ?thesis
    by (simp add: inlineHtml_def)
qed

lemma exec_LitPlus_None:
  "(case t of a # b # _ \<Rightarrow> \<not> (a = x \<and> b = x) | _ \<Rightarrow> True) \<Longrightarrow>
   exec ml [Lit x, Plus (\<lambda>c. c = x)] q t = None"
  by (auto simp: exec_def matchSeq_Plus split: list.splits)

lemma splitLoop_nomatch:
  "(\<And>q k. exec ml re q (drop k s) = None) \<Longrightarrow> splitLoop ml re acc p s = [acc @ s]"
proof (induction s arbitrary: acc p)
  case Nil
  then show ?case by simp
next
  case (Cons y ys)
  have h: "exec ml re p (y # ys) = None"
    using Cons.prems [of p 0] by simp
  have "splitLoop ml re (acc @ [y]) (Some y) ys = [(acc @ [y]) @ ys]"
  proof (rule Cons.IH)
    fix q k
    show "exec ml re q (drop k ys) = None"
      using Cons.prems [of q "Suc k"] by simp
  qed
  with h show ?case by simp
qed

lemma split_noDouble:
  assumes "\<not> hasDouble 0x0A s"
  shows "split s blankLinesRe = [s]"
proof (cases "s = []")
  case True
  then show ?thesis
    by (simp add: split_def blankLinesRe_def exec_def)
next
  case False
  have "splitLoop False [Lit 0x0A, Plus (\<lambda>c. c = 0x0A)] [] None s = [[] @ s]"
  proof (rule splitLoop_nomatch)
    fix q k
    show "exec False [Lit 0x0A, Plus (\<lambda>c. c = 0x0A)] q (drop k s) = None"
      using hasDouble_drop_front [OF assms, of k] by (rule exec_LitPlus_None)
  qed
  with False show ?thesis
    by (simp add: split_def blankLinesRe_def)
qed

lemma paragraphs_noDouble: "\<not> hasDouble 0x0A html \<Longrightarrow> paragraphs html = wrapBlock html"
  by (simp add: paragraphs_def split_noDouble)

lemma parseMarkdown_single_block:
  assumes "\<not> hasDouble 0x0A md"
  shows "parseMarkdown md = wrapBlock (inlineHtml (replace md frontmatterRe []))"
  unfolding parseMarkdown_def
  by (intro paragraphs_noDouble inlineHtml_keeps_noDouble stripFrontmatter_keeps_noDouble assms)

lemma replaceAll_Bol_absent_prefix:
  assumes "x \<notin> set pre"
  shows "replaceAll ml (Bol # Lit x # as) tp p (pre @ rest)
       = pre @ replaceAll ml (Bol # Lit x # as) tp (lastOr p pre) rest"
proof (rule replaceAll_prefix)
  fix q k assume "k < length pre"
  with assms drop_in_set [where k=k and pre=pre and rest=rest and x=x]
  show "exec ml (Bol # Lit x # as) q (drop k (pre @ rest)) = None"
    by (auto intro: exec_Bol_Lit_None)
qed

lemma replaceAll_Bol_absent:
  assumes "x \<notin> set s"
  shows "replaceAll ml (Bol # Lit x # as) tp p s = s"
  using replaceAll_Bol_absent_prefix [OF assms, of ml as tp p "[]"]
  by (simp add: replaceAll_Nil exec_Bol_Lit_None)

lemma heading_id:
  assumes "ch CHR ''#'' \<notin> set s"
  shows "replace s h3Re h3Tp = s" "replace s h2Re h2Tp = s" "replace s h1Re h1Tp = s"
  using assms by (simp_all add: replace_def h3Re_def h2Re_def h1Re_def replaceAll_Bol_absent)

lemma underscore_id: "ch CHR ''_'' \<notin> set s \<Longrightarrow> replace s underscoreRe boldTp = s"
  by (simp add: replace_def underscoreRe_def replaceAll_absent)

lemma frontmatter_id:
  assumes "s = [] \<or> hd s \<noteq> ch CHR ''-''"
  shows "replace s frontmatterRe [] = s"
proof -
  from assms have "exec False (atoms frontmatterRe) None s = None"
    by (cases s) (auto simp: exec_def frontmatterRe_def)
  then show ?thesis
    by (simp add: replace_def frontmatterRe_def replaceFirst_Bol)
qed

lemma inlineHtml_markerFree: "markerFree s \<Longrightarrow> inlineHtml s = s"
  by (simp add: inlineHtml_def markerFree_def heading_id link_id bold_id underscore_id italic_id)

lemma trim_id:
  assumes "s \<noteq> []" "\<not> isWhiteSpace (hd s)" "\<not> isWhiteSpace (last s)"
  shows "trim s = s"
proof -
  from assms(1,2) have "dropWhile isWhiteSpace s = s"
    by (cases s) auto
  moreover from assms(1,3) have "dropWhile isWhiteSpace (rev s) = rev s"
    by (cases "rev s") (auto simp: hd_rev [symmetric])
  ultimately show ?thesis
    by (simp add: trim_def)
qed

lemma startsWith_Cons: "startsWith (y # ys) (x # xs) \<longleftrightarrow> y = x \<and> startsWith ys xs"
  by (simp add: startsWith_def)

lemma wrapBlock_plain:
  assumes "s \<noteq> []" "\<not> isWhiteSpace (hd s)" "\<not> isWhiteSpace (last s)" "hd s \<noteq> ch CHR ''<''"
  shows "wrapBlock s = str ''<p>'' @ s @ str ''</p>''"
proof -
  from assms(1,4) have "\<not> startsWith s (ch CHR ''<'' # r)" for r
    by (cases s) (auto simp: startsWith_Cons)
  then show ?thesis
    using assms by (simp add: wrapBlock_def trim_id str_def)
qed

lemma replace_keeps_prefix:
  assumes "x \<notin> set pre"
  shows "\<exists>r. replace (pre @ rest) \<lparr>atoms = Lit x # as, globalFlag = True, multilineFlag = ml\<rparr> tp = pre @ r"
    and "\<exists>r. replace (pre @ rest) \<lparr>atoms = Bol # Lit x # as, globalFlag = True, multilineFlag = ml\<rparr> tp = pre @ r"
  using assms by (simp_all add: replace_def replaceAll_absent_prefix replaceAll_Bol_absent_prefix)

lemma inlineHtml_keeps_prefix:
  assumes "markerFree pre"
  shows "\<exists>r. inlineHtml (pre @ rest) = pre @ r"
proof -
  from assms have m: "ch CHR ''#'' \<notin> set pre" "ch CHR ''['' \<notin> set pre" "ch CHR ''*'' \<notin> set pre" "ch CHR ''_'' \<notin> set pre"
    by (simp_all add: markerFree_def)
  from replace_keeps_prefix(2) [OF m(1)] obtain r1 where "replace (pre @ rest) h3Re h3Tp = pre @ r1"
    unfolding h3Re_def by blast
  moreover from replace_keeps_prefix(2) [OF m(1)] obtain r2 where "replace (pre @ r1) h2Re h2Tp = pre @ r2"
    unfolding h2Re_def by blast
  moreover from replace_keeps_prefix(2) [OF m(1)] obtain r3 where "replace (pre @ r2) h1Re h1Tp = pre @ r3"
    unfolding h1Re_def by blast
  moreover from replace_keeps_prefix(1) [OF m(2)] obtain r4 where "replace (pre @ r3) linkRe linkTp = pre @ r4"
    unfolding linkRe_def by blast
  moreover from replace_keeps_prefix(1) [OF m(3)] obtain r5 where "replace (pre @ r4) boldRe boldTp = pre @ r5"
    unfolding boldRe_def by blast
  moreover from replace_keeps_prefix(1) [OF m(4)] obtain r6 where "replace (pre @ r5) underscoreRe boldTp = pre @ r6"
    unfolding underscoreRe_def by blast
  moreover from replace_keeps_prefix(1) [OF m(3)] obtain r7 where "replace (pre @ r6) italicRe italicTp = pre @ r7"
    unfolding italicRe_def by blast
  ultimately have "inlineHtml (pre @ rest) = pre @ r7"
    by (simp add: inlineHtml_def)
  then show ?thesis ..
qed

lemma splitLoop_absent_prefix:
  assumes "x \<notin> set pre"
  shows "splitLoop ml (Lit x # as) acc p (pre @ rest) = splitLoop ml (Lit x # as) (acc @ pre) (lastOr p pre) rest"
  using assms
proof (induction pre arbitrary: acc p)
  case Nil
  then show ?case by simp
next
  case (Cons y ys)
  then have "exec ml (Lit x # as) p (y # ys @ rest) = None"
    by (intro exec_Lit_None) auto
  with Cons show ?case by simp
qed

lemma splitLoop_hd: "\<exists>r bs. splitLoop ml re acc p s = (acc @ r) # bs"
proof (induction s arbitrary: acc p)
  case Nil
  then show ?case by simp
next
  case (Cons y ys)
  from Cons [of "acc @ [y]" "Some y"] obtain r bs
    where ih: "splitLoop ml re (acc @ [y]) (Some y) ys = (acc @ y # r) # bs"
    by auto
  show ?case
  proof (cases "exec ml re p (y # ys)")
    case None
    with ih show ?thesis by simp
  next
    case (Some m)
    obtain p' s' cp where m: "m = (p', s', cp)"
      by (cases m) auto
    show ?thesis
    proof (cases "acc = [] \<and> length s' = Suc (length ys)")
      case True
      with Some m ih show ?thesis by simp
    next
      case False
      with Some m have "splitLoop ml re acc p (y # ys) = (acc @ []) # splitLoop ml re [] p' s'"
        by auto
      then show ?thesis by blast
    qed
  qed
qed

lemma split_keeps_prefix:
  assumes "pre \<noteq> []" "0x0A \<notin> set pre"
  shows "\<exists>r bs. split (pre @ rest) blankLinesRe = (pre @ r) # bs"
proof -
  from assms(2) have "splitLoop False (atoms blankLinesRe) [] None (pre @ rest)
      = splitLoop False (atoms blankLinesRe) ([] @ pre) (lastOr None pre) rest"
    unfolding blankLinesRe_def regex.simps by (rule splitLoop_absent_prefix)
  with splitLoop_hd [of False "atoms blankLinesRe" pre "lastOr None pre" rest] assms(1)
  show ?thesis
    by (simp add: split_def blankLinesRe_def)
qed

lemma trim_keeps_prefix:
  assumes "pre \<noteq> []" "\<not> isWhiteSpace (hd pre)" "\<not> isWhiteSpace (last pre)"
  shows "\<exists>r. trim (pre @ rest) = pre @ r"
proof -
  from assms(1,2) have 1: "dropWhile isWhiteSpace (pre @ rest) = pre @ rest"
    by (cases pre) auto
  from assms(1,3) have 2: "dropWhile isWhiteSpace (rev pre) = rev pre"
    by (cases "rev pre") (auto simp: hd_rev [symmetric])
  have "rev (dropWhile isWhiteSpace (rev rest @ rev pre)) = pre @ rev (dropWhile isWhiteSpace (rev rest))
      \<or> rev (dropWhile isWhiteSpace (rev rest @ rev pre)) = pre @ []"
    using 2 by (auto simp: dropWhile_append)
  with 1 show ?thesis
    unfolding trim_def by auto
qed

lemma startsWith_append_same [simp]: "startsWith (p @ r) p"
  by (simp add: startsWith_def)

lemma join_Cons: "\<exists>r. join sep (x # xs) = x @ r"
  by (cases xs) auto

lemma parseMarkdown_keeps_tag:
  assumes "inert tag"
    and "tag \<in> {str ''<h'', str ''<figure'', str ''<ul'', str ''<ol'', str ''</''}"
  shows "\<exists>r. parseMarkdown (tag @ rest) = tag @ r"
proof -
  from assms(1) have "replace (tag @ rest) frontmatterRe [] = tag @ rest"
    by (intro frontmatter_id) (simp add: inert_def)
  moreover from assms(1) obtain r1 where "inlineHtml (tag @ rest) = tag @ r1"
    using inlineHtml_keeps_prefix [of tag rest] by (auto simp: inert_def)
  moreover from assms(1) obtain r2 bs where "split (tag @ r1) blankLinesRe = (tag @ r2) # bs"
    using split_keeps_prefix [of tag r1] by (auto simp: inert_def)
  moreover from assms(1) obtain r3 where t: "trim (tag @ r2) = tag @ r3"
    using trim_keeps_prefix [of tag r2] by (auto simp: inert_def)
  from assms have "wrapBlock (tag @ r2) = tag @ r3"
    unfolding wrapBlock_def t Let_def by (auto simp: inert_def)
  moreover obtain r4 where "join [0x0A] ((tag @ r3) # map wrapBlock bs) = (tag @ r3) @ r4"
    using join_Cons by blast
  ultimately have "parseMarkdown (tag @ rest) = tag @ r3 @ r4"
    by (simp add: parseMarkdown_def paragraphs_def)
  then show ?thesis ..
qed

lemma inert_tags:
  "inert (str ''<h'')" "inert (str ''<figure'')" "inert (str ''<ul'')" "inert (str ''<ol'')" "inert (str ''</'')"
  by (simp_all add: inert_def markerFree_def str_def isWhiteSpace_def isLineTerminator_def)

abbreviation (input) fmClose :: jsstring where
  "fmClose \<equiv> [0x2D, 0x2D, 0x2D, 0x0A]"

lemma closer_None:
  assumes "take 4 t \<noteq> fmClose"
  shows "matchSeq False [Lit 0x2D, Lit 0x2D, Lit 0x2D, Lit 0x0A] q t mk cp = None"
proof (cases t)
  case Nil
  then show ?thesis by simp
next
  case (Cons a t1)
  show ?thesis
  proof (cases t1)
    case Nil
    with Cons show ?thesis by simp
  next
    case (Cons b t2)
    show ?thesis
    proof (cases t2)
      case Nil
      with \<open>t = a # t1\<close> \<open>t1 = b # t2\<close> show ?thesis by simp
    next
      case (Cons c t3)
      show ?thesis
      proof (cases t3)
        case Nil
        with \<open>t = a # t1\<close> \<open>t1 = b # t2\<close> \<open>t2 = c # t3\<close> show ?thesis by simp
      next
        case (Cons d t4)
        with \<open>t = a # t1\<close> \<open>t1 = b # t2\<close> \<open>t2 = c # t3\<close> assms show ?thesis by auto
      qed
    qed
  qed
qed

lemma lazy_until_closer:
  assumes "\<not> contains (fm @ [0x2D, 0x2D, 0x2D]) fmClose"
  shows "first_some (\<lambda>(q, t). matchSeq False [Lit 0x2D, Lit 0x2D, Lit 0x2D, Lit 0x0A] q t mk cp)
           (runs (\<lambda>c. True) p (fm @ fmClose @ body)) = Some (Some 0x0A, body, cp)"
  using assms
proof (induction fm arbitrary: p)
  case Nil
  show ?case
    by (cases body) simp_all
next
  case (Cons y ys)
  from Cons.prems have n: "\<not> startsWith (y # ys @ [0x2D, 0x2D, 0x2D]) fmClose" and c: "\<not> contains (ys @ [0x2D, 0x2D, 0x2D]) fmClose"
    by simp_all
  have l: "length fmClose = 4"
    by simp
  from n have "take (length fmClose) (y # ys @ [0x2D, 0x2D, 0x2D]) \<noteq> fmClose"
    unfolding startsWith_def .
  then have t: "take 4 (y # ys @ [0x2D, 0x2D, 0x2D]) \<noteq> fmClose"
    unfolding l .
  have e: "take 4 ((y # ys @ [0x2D, 0x2D, 0x2D]) @ (0x0A # body)) = take 4 (y # ys @ [0x2D, 0x2D, 0x2D])"
    by (subst take_append) simp
  from t have "take 4 ((y # ys @ [0x2D, 0x2D, 0x2D]) @ (0x0A # body)) \<noteq> fmClose"
    unfolding e .
  then have "take 4 (y # ys @ fmClose @ body) \<noteq> fmClose"
    by simp
  then have "matchSeq False [Lit 0x2D, Lit 0x2D, Lit 0x2D, Lit 0x0A] p (y # ys @ fmClose @ body) mk cp = None"
    by (rule closer_None)
  with Cons.IH [OF c, of "Some y"] show ?case
    by simp
qed

lemma exec_frontmatter:
  assumes "\<not> contains (fm @ str ''---'') (str ''---'' @ [0x0A])"
  shows "exec False (atoms frontmatterRe) None (str ''---'' @ fm @ str ''---'' @ [0x0A] @ body)
       = Some (Some 0x0A, body, \<lambda>_. [])"
proof -
  have "(\<lambda>c. isWhiteSpace c \<or> \<not> isWhiteSpace c) = (\<lambda>c. True)"
    by auto
  moreover from assms have "\<not> contains (fm @ [0x2D, 0x2D, 0x2D]) fmClose"
    by (simp add: str_def)
  note lazy_until_closer [OF this, of "\<lambda>_. []" "\<lambda>_. []" "Some 0x2D" body]
  ultimately show ?thesis
    by (simp add: exec_def frontmatterRe_def str_def atLineStart_def matchSeq_LazyStar)
qed

lemma strip_frontmatter:
  assumes "\<not> contains (fm @ str ''---'') (str ''---'' @ [0x0A])"
  shows "replace (str ''---'' @ fm @ str ''---'' @ [0x0A] @ body) frontmatterRe [] = body"
  using exec_frontmatter [OF assms, of body]
  by (simp add: replace_def frontmatterRe_def replaceFirst_Bol)


text \<open>
  Where the closing \<^verbatim>\<open>---\<close> is followed by a line feed, and \<^verbatim>\<open>---\<close> with a line feed does not
  occur before it, the frontmatter is removed and the body alone is converted.
\<close>

lemma parseMarkdown_strips_frontmatter_lf:
  assumes "\<not> contains (fm @ str ''---'') (str ''---'' @ [0x0A])"
  shows "parseMarkdown (str ''---'' @ fm @ str ''---'' @ [0x0A] @ body) = paragraphs (inlineHtml body)"
  using strip_frontmatter [OF assms, of body] by (simp only: parseMarkdown_def)

lemma exec_underscore:
  assumes "t \<noteq> []" "ch CHR ''_'' \<notin> set t"
  shows "exec False (atoms underscoreRe) p (str ''__'' @ t @ str ''__'' @ rest)
         = Some (Some (ch CHR ''_''), rest, (\<lambda>_. [])(1 := t))"
proof -
  let ?mk1 = "(\<lambda>_. [])(1 := t @ 95 # 95 # rest) :: captures"
  let ?res = "Some (Some (95::jschar), rest, (\<lambda>_. [])(1 := t))"
  have "matchSeq False [Close 1, Lit 95, Lit 95] (Some (last t)) (95 # 95 # rest) ?mk1 (\<lambda>_. []) = ?res"
    by simp
  with assms
  have "matchSeq False (Plus (\<lambda>c. c \<noteq> 95) # [Close 1, Lit 95, Lit 95]) (Some 95) (t @ 95 # 95 # rest) ?mk1 (\<lambda>_. []) = ?res"
    by (intro matchSeq_Plus_greedy) auto
  then show ?thesis
    by (simp add: exec_def underscoreRe_def str_def)
qed

lemma underscore_pass_prefix:
  assumes "ch CHR ''_'' \<notin> set pre" "t \<noteq> []" "ch CHR ''_'' \<notin> set t"
  shows "\<exists>r. replace (pre @ str ''__'' @ t @ str ''__'' @ post) underscoreRe boldTp
       = pre @ str ''<strong>'' @ t @ str ''</strong>'' @ r \<and> (ch CHR ''_'' \<notin> set post \<longrightarrow> r = post)"
proof -
  let ?r = "replaceAll False (atoms underscoreRe) boldTp (Some (ch CHR ''_'')) post"
  have "replaceAll False (atoms underscoreRe) boldTp (lastOr None pre) (str ''__'' @ t @ str ''__'' @ post)
      = expand boldTp ((\<lambda>_. [])(1 := t)) @ ?r"
    by (rule replaceAll_match [OF exec_underscore [OF assms(2,3)]]) (simp add: str_def)
  moreover have "replaceAll False (atoms underscoreRe) boldTp None (pre @ str ''__'' @ t @ str ''__'' @ post)
     = pre @ replaceAll False (atoms underscoreRe) boldTp (lastOr None pre) (str ''__'' @ t @ str ''__'' @ post)"
    using assms(1) by (simp add: underscoreRe_def replaceAll_absent_prefix)
  ultimately have "replace (pre @ str ''__'' @ t @ str ''__'' @ post) underscoreRe boldTp
       = pre @ str ''<strong>'' @ t @ str ''</strong>'' @ ?r"
    by (simp add: replace_def underscoreRe_def boldTp_def)
  moreover have "ch CHR ''_'' \<notin> set post \<longrightarrow> ?r = post"
    by (simp add: underscoreRe_def replaceAll_absent)
  ultimately show ?thesis by blast
qed

lemma markerFree_append [simp]: "markerFree (a @ b) \<longleftrightarrow> markerFree a \<and> markerFree b"
  by (auto simp: markerFree_def)

lemma markerFree_strong: "markerFree (str ''<strong>'')" "markerFree (str ''</strong>'')"
  by (simp_all add: markerFree_def str_def)

lemma inlineHtml_underscore:
  assumes "markerFree pre" "markerFree t" "markerFree post" "t \<noteq> []"
  shows "inlineHtml (pre @ str ''__'' @ t @ str ''__'' @ post) = pre @ str ''<strong>'' @ t @ str ''</strong>'' @ post"
proof -
  let ?s = "pre @ str ''__'' @ t @ str ''__'' @ post"
  let ?o = "pre @ str ''<strong>'' @ t @ str ''</strong>'' @ post"
  from assms have n: "ch CHR ''#'' \<notin> set ?s" "ch CHR ''['' \<notin> set ?s" "ch CHR ''*'' \<notin> set ?s"
    by (simp_all add: markerFree_def str_def)
  from assms underscore_pass_prefix [of pre t post] have u: "replace ?s underscoreRe boldTp = ?o"
    by (auto simp: markerFree_def)
  from assms have "ch CHR ''*'' \<notin> set ?o"
    by (simp add: markerFree_def str_def)
  then have "replace ?o italicRe italicTp = ?o"
    by (rule italic_id)
  with n u show ?thesis
    by (simp add: inlineHtml_def heading_id link_id bold_id)
qed

lemma inlineHtml_stars:
  assumes "markerFree pre" "markerFree t" "markerFree post" "t \<noteq> []"
  shows "inlineHtml (pre @ str ''**'' @ t @ str ''**'' @ post) = pre @ str ''<strong>'' @ t @ str ''</strong>'' @ post"
proof -
  let ?s = "pre @ str ''**'' @ t @ str ''**'' @ post"
  let ?o = "pre @ str ''<strong>'' @ t @ str ''</strong>'' @ post"
  from assms have n: "ch CHR ''#'' \<notin> set ?s" "ch CHR ''['' \<notin> set ?s"
    by (simp_all add: markerFree_def str_def)
  from assms have u: "replace ?s boldRe boldTp = ?o"
    by (intro bold_pass) (simp_all add: markerFree_def)
  from assms have "ch CHR ''*'' \<notin> set ?o" "ch CHR ''_'' \<notin> set ?o"
    by (simp_all add: markerFree_def str_def)
  then have "replace ?o italicRe italicTp = ?o" "replace ?o underscoreRe boldTp = ?o"
    by (simp_all add: italic_id underscore_id)
  with n u show ?thesis
    by (simp add: inlineHtml_def heading_id link_id)
qed

lemma wrapBlock_strong: "wrapBlock (str ''<strong>'' @ t @ str ''</strong>'') = str ''<p><strong>'' @ t @ str ''</strong></p>''"
proof -
  have "trim (str ''<strong>'' @ t @ str ''</strong>'') = str ''<strong>'' @ t @ str ''</strong>''"
    by (rule trim_id) (simp_all add: str_def isWhiteSpace_def isLineTerminator_def)
  then show ?thesis
    by (simp add: wrapBlock_def) (simp add: str_def startsWith_def)
qed

lemma noDouble_wrapped:
  assumes "\<not> hasDouble x t" "x \<notin> set a" "x \<notin> set b"
  shows "\<not> hasDouble x (a @ t @ b)"
proof -
  have "b = [] \<or> hd b \<noteq> x"
    using assms(3) hd_in_set [of b] by auto
  with assms have "\<not> hasDouble x (t @ b)"
    by (auto simp: hasDouble_append)
  with assms(2) show ?thesis by simp
qed

lemma parseMarkdown_underscore_only:
  assumes "markerFree t" "t \<noteq> []" "\<not> hasDouble 0x0A t"
  shows "parseMarkdown (str ''__'' @ t @ str ''__'') = str ''<p><strong>'' @ t @ str ''</strong></p>''"
proof -
  let ?s = "str ''__'' @ t @ str ''__''"
  from assms(3) have "\<not> hasDouble 0x0A ?s"
    by (intro noDouble_wrapped) (simp_all add: str_def)
  then have "parseMarkdown ?s = wrapBlock (inlineHtml (replace ?s frontmatterRe []))"
    by (rule parseMarkdown_single_block)
  also have "replace ?s frontmatterRe [] = ?s"
    by (rule frontmatter_id) (simp add: str_def)
  also from assms inlineHtml_underscore [of "[]" t "[]"] have "inlineHtml ?s = str ''<strong>'' @ t @ str ''</strong>''"
    by (simp add: markerFree_def)
  finally show ?thesis
    by (simp add: wrapBlock_strong)
qed

lemma parseMarkdown_stars_only:
  assumes "markerFree t" "t \<noteq> []" "\<not> hasDouble 0x0A t"
  shows "parseMarkdown (str ''**'' @ t @ str ''**'') = str ''<p><strong>'' @ t @ str ''</strong></p>''"
proof -
  let ?s = "str ''**'' @ t @ str ''**''"
  from assms(3) have "\<not> hasDouble 0x0A ?s"
    by (intro noDouble_wrapped) (simp_all add: str_def)
  then have "parseMarkdown ?s = wrapBlock (inlineHtml (replace ?s frontmatterRe []))"
    by (rule parseMarkdown_single_block)
  also have "replace ?s frontmatterRe [] = ?s"
    by (rule frontmatter_id) (simp add: str_def)
  also from assms inlineHtml_stars [of "[]" t "[]"] have "inlineHtml ?s = str ''<strong>'' @ t @ str ''</strong>''"
    by (simp add: markerFree_def)
  finally show ?thesis
    by (simp add: wrapBlock_strong)
qed

lemma bindE_Inl [simp]: "bindE (Inl e) f = Inl e"
  by (simp add: bindE_def)

lemma bindE_Inr [simp]: "bindE (Inr x) f = f x"
  by (simp add: bindE_def)

lemma CF_exclusive:
  "ltCF cmp a b \<Longrightarrow> \<not> eqCF cmp a b"
  "ltCF cmp a b \<Longrightarrow> \<not> gtCF cmp a b"
  "gtCF cmp a b \<Longrightarrow> \<not> eqCF cmp a b"
  by (auto simp: ltCF_def eqCF_def gtCF_def split: sum.splits option.splits)

lemma consistent_total:
  "consistent cmp A \<Longrightarrow> a \<in> A \<Longrightarrow> b \<in> A \<Longrightarrow> eqCF cmp a b \<or> ltCF cmp a b \<or> gtCF cmp a b"
  unfolding consistent_def by blast

lemma consistent_refl: "consistent cmp A \<Longrightarrow> a \<in> A \<Longrightarrow> eqCF cmp a a"
  unfolding consistent_def by blast

lemma consistent_sym: "consistent cmp A \<Longrightarrow> a \<in> A \<Longrightarrow> b \<in> A \<Longrightarrow> eqCF cmp a b \<Longrightarrow> eqCF cmp b a"
  unfolding consistent_def by blast

lemma consistent_eq_trans:
  "consistent cmp A \<Longrightarrow> a \<in> A \<Longrightarrow> b \<in> A \<Longrightarrow> c \<in> A \<Longrightarrow> eqCF cmp a b \<Longrightarrow> eqCF cmp b c \<Longrightarrow> eqCF cmp a c"
  unfolding consistent_def by blast

lemma consistent_lt_trans:
  "consistent cmp A \<Longrightarrow> a \<in> A \<Longrightarrow> b \<in> A \<Longrightarrow> c \<in> A \<Longrightarrow> ltCF cmp a b \<Longrightarrow> ltCF cmp b c \<Longrightarrow> ltCF cmp a c"
  unfolding consistent_def by blast

lemma consistent_gt_trans:
  "consistent cmp A \<Longrightarrow> a \<in> A \<Longrightarrow> b \<in> A \<Longrightarrow> c \<in> A \<Longrightarrow> gtCF cmp a b \<Longrightarrow> gtCF cmp b c \<Longrightarrow> gtCF cmp a c"
  unfolding consistent_def by blast

lemma consistent_lt_asym:
  assumes "consistent cmp A" "a \<in> A" "b \<in> A" "ltCF cmp a b"
  shows "\<not> ltCF cmp b a"
proof
  assume "ltCF cmp b a"
  from consistent_lt_trans [OF assms(1,2,3,2) assms(4) this] have "ltCF cmp a a" .
  with consistent_refl [OF assms(1,2)] CF_exclusive(1) [of cmp a a] show False by simp
qed

lemma consistent_lt_eq:
  assumes c: "consistent cmp A" and m: "z \<in> A" "x \<in> A" "y \<in> A"
    and zx: "ltCF cmp z x" and xy: "eqCF cmp x y"
  shows "ltCF cmp z y"
proof (rule ccontr)
  assume n: "\<not> ltCF cmp z y"
  from consistent_sym [OF c m(2,3) xy] have yx: "eqCF cmp y x" .
  from consistent_total [OF c m(1,3)] n have "eqCF cmp z y \<or> gtCF cmp z y" by simp
  then show False
  proof
    assume "eqCF cmp z y"
    from consistent_eq_trans [OF c m(1,3,2) this yx] CF_exclusive(1) [OF zx] show False by simp
  next
    assume g: "gtCF cmp z y"
    from consistent_total [OF c m(3,1)] consider "eqCF cmp y z" | "ltCF cmp y z" | "gtCF cmp y z" by blast
    then show False
    proof cases
      case 1
      from consistent_sym [OF c m(3,1) this] CF_exclusive(3) [OF g] show False by simp
    next
      case 2
      from consistent_lt_trans [OF c m(3,1,2) this zx] CF_exclusive(1) [of cmp y x] yx show False by simp
    next
      case 3
      from consistent_gt_trans [OF c m(1,3,1) g this] consistent_refl [OF c m(1)] CF_exclusive(3) [of cmp z z]
      show False by simp
    qed
  qed
qed

lemma insertBy_consistent:
  assumes c: "consistent cmp A" and x: "x \<in> A" and ys: "set ys \<subseteq> A"
  shows "\<exists>r. insertBy cmp x ys = Inr r \<and> mset r = add_mset x (mset ys) \<and>
           (sorted_wrt (\<lambda>a b. \<not> ltCF cmp b a) ys \<longrightarrow> sorted_wrt (\<lambda>a b. \<not> ltCF cmp b a) r) \<and>
           (\<forall>a\<in>A. filter (eqCF cmp a) r
                    = (if eqCF cmp a x then x # filter (eqCF cmp a) ys else filter (eqCF cmp a) ys))"
  using ys
proof (induction ys)
  case Nil
  show ?case by simp
next
  case (Cons y ys)
  from Cons.prems have y: "y \<in> A" and ys: "set ys \<subseteq> A" by simp_all
  from consistent_total [OF c x y] obtain v where v: "cmp x y = Inr (Some v)"
    by (auto simp: eqCF_def ltCF_def gtCF_def split: sum.splits option.splits)
  show ?case
  proof (cases "v \<le> 0")
    case True
    with v have r: "insertBy cmp x (y # ys) = Inr (x # y # ys)" by simp
    from True v have le: "eqCF cmp x y \<or> ltCF cmp x y"
      by (auto simp: eqCF_def ltCF_def)
    have s: "sorted_wrt (\<lambda>a b. \<not> ltCF cmp b a) (x # y # ys)"
      if s0: "sorted_wrt (\<lambda>a b. \<not> ltCF cmp b a) (y # ys)"
    proof -
      have "\<not> ltCF cmp q x" if q: "q \<in> set (y # ys)" for q
      proof
        assume qx: "ltCF cmp q x"
        from q Cons.prems have qA: "q \<in> A" by auto
        from le have qy: "ltCF cmp q y"
        proof
          assume "eqCF cmp x y"
          from consistent_lt_eq [OF c qA x y qx this] show ?thesis .
        next
          assume "ltCF cmp x y"
          from consistent_lt_trans [OF c qA x y qx this] show ?thesis .
        qed
        from q consider "q = y" | "q \<in> set ys" by auto
        then show False
        proof cases
          case 1
          with qy consistent_refl [OF c y] CF_exclusive(1) [of cmp y y] show False by simp
        next
          case 2
          with s0 qy show False by simp
        qed
      qed
      with s0 show ?thesis by simp
    qed
    from r s show ?thesis by simp
  next
    case False
    with v have g: "gtCF cmp x y" by (simp add: gtCF_def)
    from Cons.IH [OF ys] obtain r where r: "insertBy cmp x ys = Inr r" "mset r = add_mset x (mset ys)"
      "sorted_wrt (\<lambda>a b. \<not> ltCF cmp b a) ys \<longrightarrow> sorted_wrt (\<lambda>a b. \<not> ltCF cmp b a) r"
      "\<forall>a\<in>A. filter (eqCF cmp a) r
                    = (if eqCF cmp a x then x # filter (eqCF cmp a) ys else filter (eqCF cmp a) ys)"
      by blast
    from v False r(1) have e: "insertBy cmp x (y # ys) = Inr (y # r)" by simp
    from r(2) have sr: "set r = insert x (set ys)"
      by (metis set_mset_add_mset_insert set_mset_mset)
    have s: "sorted_wrt (\<lambda>a b. \<not> ltCF cmp b a) (y # r)"
      if s0: "sorted_wrt (\<lambda>a b. \<not> ltCF cmp b a) (y # ys)"
    proof -
      from CF_exclusive(2) [of cmp x y] g have "\<not> ltCF cmp x y" by blast
      with s0 r(3) sr show ?thesis by auto
    qed
    have f: "filter (eqCF cmp a) (y # r)
          = (if eqCF cmp a x then x # filter (eqCF cmp a) (y # ys) else filter (eqCF cmp a) (y # ys))"
      if a: "a \<in> A" for a
    proof (cases "eqCF cmp a x")
      case True
      have "\<not> eqCF cmp a y"
      proof
        assume ay: "eqCF cmp a y"
        from consistent_sym [OF c a x True] have "eqCF cmp x a" .
        from consistent_eq_trans [OF c x a y this ay] CF_exclusive(3) [OF g] show False by simp
      qed
      with True r(4) a show ?thesis by simp
    next
      case False
      with r(4) a show ?thesis by simp
    qed
    from e r(2) s f show ?thesis by simp
  qed
qed

lemma insertionSort_consistent:
  assumes c: "consistent cmp A" and xs: "set xs \<subseteq> A"
  shows "\<exists>ys. insertionSort cmp xs = Inr ys \<and> mset ys = mset xs \<and>
           sorted_wrt (\<lambda>a b. \<not> ltCF cmp b a) ys \<and>
           (\<forall>a\<in>A. filter (eqCF cmp a) ys = filter (eqCF cmp a) xs)"
  using xs
proof (induction xs)
  case Nil
  show ?case by simp
next
  case (Cons x xs)
  from Cons.prems have x: "x \<in> A" and xs: "set xs \<subseteq> A" by simp_all
  from Cons.IH [OF xs] obtain ys where ys: "insertionSort cmp xs = Inr ys" "mset ys = mset xs"
      "sorted_wrt (\<lambda>a b. \<not> ltCF cmp b a) ys"
      "\<forall>a\<in>A. filter (eqCF cmp a) ys = filter (eqCF cmp a) xs"
    by blast
  from ys(2) xs have "set ys \<subseteq> A"
    by (metis set_mset_mset)
  from insertBy_consistent [OF c x this] obtain r where r: "insertBy cmp x ys = Inr r"
      "mset r = add_mset x (mset ys)"
      "sorted_wrt (\<lambda>a b. \<not> ltCF cmp b a) ys \<longrightarrow> sorted_wrt (\<lambda>a b. \<not> ltCF cmp b a) r"
      "\<forall>a\<in>A. filter (eqCF cmp a) r
                    = (if eqCF cmp a x then x # filter (eqCF cmp a) ys else filter (eqCF cmp a) ys)"
    by blast
  from ys r show ?case by simp
qed

lemma conforming_examplePlatform: "conforming examplePlatform"
  unfolding conforming_def sortedBy_def
proof (intro allI impI)
  fix cmp and xs :: "timelineItem list"
  assume "consistent cmp (set xs)"
  from insertionSort_consistent [OF this order_refl]
  show "case arraySort examplePlatform cmp xs of
          Inl e \<Rightarrow> False
        | Inr ys \<Rightarrow> mset ys = mset xs \<and> sorted_wrt (\<lambda>a b. \<not> ltCF cmp b a) ys \<and>
                   (\<forall>a\<in>set xs. filter (eqCF cmp a) ys = filter (eqCF cmp a) xs)"
    by (auto simp: examplePlatform_def)
qed

lemma validStartD: "validStart pf item \<Longrightarrow> newDateOf pf (start_date item) = Inr (Some (startTime pf item))"
  by (auto simp: validStart_def startTime_def split: sum.splits option.splits)

lemma compareStart_valid:
  "validStart pf a \<Longrightarrow> validStart pf b \<Longrightarrow>
   compareStart pf a b = Inr (Some (startTime pf b - startTime pf a))"
  by (simp add: compareStart_def validStartD)

lemma CF_compareStart:
  assumes "validStart pf a" "validStart pf b"
  shows "eqCF (compareStart pf) a b \<longleftrightarrow> startTime pf b = startTime pf a"
    and "ltCF (compareStart pf) a b \<longleftrightarrow> startTime pf b < startTime pf a"
    and "gtCF (compareStart pf) a b \<longleftrightarrow> startTime pf a < startTime pf b"
  by (simp_all add: eqCF_def ltCF_def gtCF_def compareStart_valid [OF assms])

lemma consistent_compareStart:
  assumes "\<forall>item\<in>A. validStart pf item"
  shows "consistent (compareStart pf) A"
  unfolding consistent_def
proof (intro conjI ballI impI)
  fix a b assume "a \<in> A" "b \<in> A"
  with assms have v: "validStart pf a" "validStart pf b" by simp_all
  from CF_compareStart [OF v]
  show "eqCF (compareStart pf) a b \<or> ltCF (compareStart pf) a b \<or> gtCF (compareStart pf) a b"
    by auto
next
  fix a assume "a \<in> A"
  with assms have "validStart pf a" by simp
  from CF_compareStart(1) [OF this this] show "eqCF (compareStart pf) a a" by simp
next
  fix a b assume "a \<in> A" "b \<in> A" and e: "eqCF (compareStart pf) a b"
  with assms have v: "validStart pf a" "validStart pf b" by simp_all
  from CF_compareStart(1) [OF v] CF_compareStart(1) [OF v(2,1)] e
  show "eqCF (compareStart pf) b a" by simp
next
  fix a b c assume "a \<in> A" "b \<in> A" "c \<in> A"
    and e: "eqCF (compareStart pf) a b \<and> eqCF (compareStart pf) b c"
  with assms have v: "validStart pf a" "validStart pf b" "validStart pf c" by simp_all
  from CF_compareStart(1) [OF v(1,2)] CF_compareStart(1) [OF v(2,3)] CF_compareStart(1) [OF v(1,3)] e
  show "eqCF (compareStart pf) a c" by simp
next
  fix a b c assume "a \<in> A" "b \<in> A" "c \<in> A"
    and e: "ltCF (compareStart pf) a b \<and> ltCF (compareStart pf) b c"
  with assms have v: "validStart pf a" "validStart pf b" "validStart pf c" by simp_all
  from CF_compareStart(2) [OF v(1,2)] CF_compareStart(2) [OF v(2,3)] CF_compareStart(2) [OF v(1,3)] e
  show "ltCF (compareStart pf) a c" by simp
next
  fix a b c assume "a \<in> A" "b \<in> A" "c \<in> A"
    and e: "gtCF (compareStart pf) a b \<and> gtCF (compareStart pf) b c"
  with assms have v: "validStart pf a" "validStart pf b" "validStart pf c" by simp_all
  from CF_compareStart(3) [OF v(1,2)] CF_compareStart(3) [OF v(2,3)] CF_compareStart(3) [OF v(1,3)] e
  show "gtCF (compareStart pf) a c" by simp
qed

lemma sortedBy_compareStart:
  assumes v: "\<forall>item\<in>set xs. validStart pf item" and s: "sortedBy (compareStart pf) xs ys"
  shows "mset ys = mset xs"
    and "sorted_wrt (\<lambda>a b. startTime pf b \<le> startTime pf a) ys"
    and "filter (\<lambda>i. startTime pf i = t) ys = filter (\<lambda>i. startTime pf i = t) xs"
proof -
  from s show m: "mset ys = mset xs" by (simp add: sortedBy_def)
  then have se: "set ys = set xs" by (metis set_mset_mset)
  from s have "sorted_wrt (\<lambda>a b. \<not> ltCF (compareStart pf) b a) ys" by (simp add: sortedBy_def)
  then show "sorted_wrt (\<lambda>a b. startTime pf b \<le> startTime pf a) ys"
  proof (rule sorted_wrt_mono_rel [rotated])
    fix a b assume "a \<in> set ys" "b \<in> set ys" "\<not> ltCF (compareStart pf) b a"
    with v se CF_compareStart(2) [of pf b a] show "startTime pf b \<le> startTime pf a" by auto
  qed
  show "filter (\<lambda>i. startTime pf i = t) ys = filter (\<lambda>i. startTime pf i = t) xs"
  proof (cases "\<exists>a\<in>set xs. startTime pf a = t")
    case True
    then obtain a where a: "a \<in> set xs" "startTime pf a = t" by blast
    from s a(1) have f: "filter (eqCF (compareStart pf) a) ys = filter (eqCF (compareStart pf) a) xs"
      by (simp add: sortedBy_def)
    have e: "eqCF (compareStart pf) a i \<longleftrightarrow> startTime pf i = t" if "i \<in> set xs" for i
      using CF_compareStart(1) [of pf a i] v a that by simp
    have "filter (\<lambda>i. startTime pf i = t) ys = filter (eqCF (compareStart pf) a) ys"
      by (rule filter_cong) (simp_all add: e se)
    also note f
    also have "filter (eqCF (compareStart pf) a) xs = filter (\<lambda>i. startTime pf i = t) xs"
      by (rule filter_cong) (simp_all add: e)
    finally show ?thesis .
  next
    case False
    then have "filter (\<lambda>i. startTime pf i = t) xs = []" by (simp add: filter_empty_conv)
    moreover from False se have "filter (\<lambda>i. startTime pf i = t) ys = []" by (simp add: filter_empty_conv)
    ultimately show ?thesis by simp
  qed
qed

lemma conforming_compareStart:
  assumes "conforming pf" "\<forall>item\<in>set xs. validStart pf item"
  shows "\<exists>ys. arraySort pf (compareStart pf) xs = Inr ys \<and> sortedBy (compareStart pf) xs ys"
proof -
  from consistent_compareStart [OF assms(2)] assms(1)
  have "case arraySort pf (compareStart pf) xs of Inr ys \<Rightarrow> sortedBy (compareStart pf) xs ys | Inl e \<Rightarrow> False"
    unfolding conforming_def by blast
  then show ?thesis by (cases "arraySort pf (compareStart pf) xs") simp_all
qed

text \<open>A list is determined by its elements, a descending order of keys and the order within each key.\<close>

lemma sorted_stable_unique:
  fixes key :: "'a \<Rightarrow> int"
  assumes "mset ys = mset zs"
    and "sorted_wrt (\<lambda>a b. key b \<le> key a) ys" "sorted_wrt (\<lambda>a b. key b \<le> key a) zs"
    and "\<And>t. filter (\<lambda>i. key i = t) ys = filter (\<lambda>i. key i = t) zs"
  shows "ys = zs"
  using assms
proof (induction ys arbitrary: zs)
  case Nil
  then show ?case by simp
next
  case (Cons y ys)
  from Cons.prems(1) obtain z zs' where zs: "zs = z # zs'"
    by (cases zs) auto
  from Cons.prems(1) have se: "set (y # ys) = set zs" by (metis set_mset_mset)
  with zs Cons.prems(3) have "key y \<le> key z" by auto
  moreover from se zs Cons.prems(2) have "key z \<le> key y" by auto
  ultimately have k: "key z = key y" by simp
  from Cons.prems(4) [of "key y", unfolded zs]
  have "y # filter (\<lambda>i. key i = key y) ys = z # filter (\<lambda>i. key i = key y) zs'"
    by (simp only: filter.simps k refl if_True)
  then have yz: "y = z" and f0: "filter (\<lambda>i. key i = key y) ys = filter (\<lambda>i. key i = key y) zs'"
    by auto
  have f: "filter (\<lambda>i. key i = t) ys = filter (\<lambda>i. key i = t) zs'" for t
  proof (cases "t = key y")
    case True
    with f0 show ?thesis by simp
  next
    case False
    with Cons.prems(4) [of t] zs yz show ?thesis by simp
  qed
  from Cons.prems(1) zs yz have m: "mset ys = mset zs'" by simp
  from Cons.prems(2,3) zs have "sorted_wrt (\<lambda>a b. key b \<le> key a) ys" "sorted_wrt (\<lambda>a b. key b \<le> key a) zs'"
    by simp_all
  from Cons.IH [OF m this f] zs yz show ?case by simp
qed

lemma sort_three:
  assumes c: "conforming pf"
    and d: "newDateOf pf (start_date a) = Inr (Some ta)" "newDateOf pf (start_date b) = Inr (Some tb)"
       "newDateOf pf (start_date c) = Inr (Some tc)"
    and o: "ta < tc" "tc < tb"
  shows "arraySort pf (compareStart pf) [a, b, c] = Inr [b, c, a]"
proof -
  from d have v: "\<forall>item\<in>set [a, b, c]. validStart pf item"
    by (simp add: validStart_def)
  from d have k: "startTime pf a = ta" "startTime pf b = tb" "startTime pf c = tc"
    by (simp_all add: startTime_def)
  from conforming_compareStart [OF c v] obtain ys where
    ys: "arraySort pf (compareStart pf) [a, b, c] = Inr ys" "sortedBy (compareStart pf) [a, b, c] ys"
    by blast
  have "ys = [b, c, a]"
  proof (rule sorted_stable_unique [where key = "startTime pf"])
    from sortedBy_compareStart(1) [OF v ys(2)] show "mset ys = mset [b, c, a]" by simp
    from sortedBy_compareStart(2) [OF v ys(2)] show "sorted_wrt (\<lambda>a b. startTime pf b \<le> startTime pf a) ys" .
    from k o show "sorted_wrt (\<lambda>a b. startTime pf b \<le> startTime pf a) [b, c, a]" by simp
    fix t
    from sortedBy_compareStart(3) [OF v ys(2), of t] k o
    show "filter (\<lambda>i. startTime pf i = t) ys = filter (\<lambda>i. startTime pf i = t) [b, c, a]" by auto
  qed
  with ys(1) show ?thesis by simp
qed

lemma mapE_Inr: "map f xs = map Inr ys \<Longrightarrow> mapE f xs = Inr ys"
proof (induction xs arbitrary: ys)
  case Nil
  then show ?case by simp
next
  case (Cons x xs)
  then obtain y ys' where "ys = y # ys'" "f x = Inr y" "map f xs = map Inr ys'"
    by (cases ys) auto
  with Cons.IH [of ys'] show ?case by simp
qed

lemma forEachItem_Inr:
  "map (renderTimelineItem pf) items = map Inr htmls \<Longrightarrow>
   forEachItem pf items children = (children @ map Markup htmls, None)"
proof (induction items arbitrary: htmls children)
  case Nil
  then show ?case by simp
next
  case (Cons item items)
  then obtain h hs where "htmls = h # hs" "renderTimelineItem pf item = Inr h"
      "map (renderTimelineItem pf) items = map Inr hs"
    by (cases htmls) auto
  with Cons.IH [of hs "children @ [Markup h]"] show ?case by simp
qed

lemma renders_all:
  "\<forall>item\<in>set items. renders pf item \<Longrightarrow> \<exists>htmls. map (renderTimelineItem pf) items = map Inr htmls"
proof (induction items)
  case Nil
  then show ?case by simp
next
  case (Cons item items)
  then obtain hs where hs: "map (renderTimelineItem pf) items = map Inr hs" by auto
  from Cons.prems obtain h where "renderTimelineItem pf item = Inr h"
    by (auto simp: renders_def split: sum.splits)
  with hs have "map (renderTimelineItem pf) (item # items) = map Inr (h # hs)" by simp
  then show ?case by blast
qed

lemma loadTimeline_Inr:
  assumes "elements pg (str ''timeline-list'') \<noteq> None"
    and "arraySort pf (compareStart pf) timeline = Inr ordered"
    and "map (renderTimelineItem pf) ordered = map Inr htmls"
  shows "loadTimeline pf (Some timeline) pg
     = pg\<lparr>elements := (elements pg)(str ''timeline-list'' \<mapsto> [Markup (concat htmls)])\<rparr>"
  using assms(1) by (auto simp: loadTimeline_def assms(2) mapE_Inr [OF assms(3)])

lemma loadTimelineModule_Inr:
  assumes "elements pg (str ''timeline-list'') = Some children"
    and "arraySort pf (compareStart pf) timeline = Inr ordered"
    and "map (renderTimelineItem pf) ordered = map Inr htmls"
  shows "loadTimelineModule pf (Some timeline) pg
     = pg\<lparr>elements := (elements pg)(str ''timeline-list'' \<mapsto> children @ map Markup htmls)\<rparr>"
  by (simp add: loadTimelineModule_def assms(1,2) forEachItem_Inr [OF assms(3)])

lemma yearRange_present:
  assumes "newDateOf pf (start_date item) = Inr (Some t)" "end_date item = Str e"
    "toLowerCase e = str ''present''"
  shows "yearRange pf item = Inr (numberToString (Some (fullYear pf t)) @ str '' - Present'')"
proof -
  from assms(3) have "e \<noteq> []"
    by (auto simp: toLowerCase_def str_def)
  with assms have "endYearOf pf item = Inr (YStr (str ''Present''))"
    by (simp add: endYearOf_def)
  with assms(1) show ?thesis
    by (simp add: yearRange_def getFullYear_def) (simp add: str_def)
qed


lemma render_examples:
  "renderTimelineItem examplePlatform (exampleEntry ''2020-03-01'' ''2021-03-01'') = Inr (exampleMarkup ''2020 - 2021'')"
  "renderTimelineItem examplePlatform (exampleEntry ''2022-03-01'' ''PRESENT'') = Inr (exampleMarkup ''2022 - Present'')"
  "renderTimelineItem examplePlatform (exampleEntry ''2021-03-01'' ''2022-03-01'') = Inr (exampleMarkup ''2021 - 2022'')"
  by code_simp+


text \<open>
  A number as end date, as YAML gives for \<^verbatim>\<open>end_date: 2021\<close>: the call of \<^verbatim>\<open>toLowerCase\<close> throws,
  the error is logged and the list stays as it was.
\<close>

lemma number_end_date:
  "loadTimeline examplePlatform
     (Some [exampleEntry ''2020-03-01'' ''2021-03-01'', (exampleEntry ''2021-03-01'' '''')\<lparr>end_date := number2021\<rparr>])
     examplePage
   = examplePage\<lparr>console := [str ''Error loading timeline:'']\<rparr>"
proof -
  have "mapE (renderTimelineItem examplePlatform)
     [(exampleEntry ''2021-03-01'' '''')\<lparr>end_date := number2021\<rparr>, exampleEntry ''2020-03-01'' ''2021-03-01'']
     = Inl TypeError"
    by code_simp
  moreover have "arraySort examplePlatform (compareStart examplePlatform)
      [exampleEntry ''2020-03-01'' ''2021-03-01'', (exampleEntry ''2021-03-01'' '''')\<lparr>end_date := number2021\<rparr>]
     = Inr [(exampleEntry ''2021-03-01'' '''')\<lparr>end_date := number2021\<rparr>, exampleEntry ''2020-03-01'' ''2021-03-01'']"
    by code_simp
  ultimately show ?thesis
    by (simp add: loadTimeline_def examplePage_def)
qed

lemma isHeading_elemId [simp]: "isHeading (e\<lparr>elemId := x\<rparr>) = isHeading e"
  by (simp add: isHeading_def)

lemma numberHeadings_ids:
  "map elemId (filter isHeading (numberHeadings i body))
     = map sectionId [i ..< i + length (filter isHeading body)]"
proof (induction body arbitrary: i)
  case Nil
  then show ?case by simp
next
  case (Cons e es)
  show ?case
  proof (cases "isHeading e")
    case True
    with Cons [of "Suc i"] show ?thesis
      by (simp add: upt_conv_Cons del: upt_Suc)
  next
    case False
    with Cons [of i] show ?thesis by simp
  qed
qed

lemma numberHeadings_keeps:
  "map tagName (numberHeadings i body) = map tagName body"
  "map textContent (numberHeadings i body) = map textContent body"
  "map elemId (filter (\<lambda>e. \<not> isHeading e) (numberHeadings i body)) = map elemId (filter (\<lambda>e. \<not> isHeading e) body)"
  by (induction body arbitrary: i) auto

lemma tocEntry_link:
  "link_href (item_link (tocEntry i h)) = str ''#'' @ sectionId i"
  "link_text (item_link (tocEntry i h)) = textContent h"
  by (simp_all add: tocEntry_def Let_def)

lemma enumerate_hrefs:
  "map (\<lambda>(i, h). link_href (item_link (tocEntry i h))) (enumerate n hs)
     = map (\<lambda>i. str ''#'' @ sectionId i) [n ..< n + length hs]"
  by (induction hs arbitrary: n) (simp_all add: tocEntry_link upt_conv_Cons del: upt_Suc)

lemma enumerate_texts:
  "map (\<lambda>(i, h). link_text (item_link (tocEntry i h))) (enumerate n hs) = map textContent hs"
  by (induction hs arbitrary: n) (simp_all add: tocEntry_link)

lemma sectionId_small:
  "sectionId 0 = str ''section-0''" "sectionId 1 = str ''section-1''" "sectionId 2 = str ''section-2''"
  by (simp_all add: sectionId_def digitsOf.simps str_def)

lemma loadConfig_elements: "loadConfig response pg = (v, pg') \<Longrightarrow> elements pg' = elements pg"
  by (auto simp: loadConfig_def loadConfigFinish_def split: option.splits fetched.splits)

lemma loadConfig_console:
  "loadConfig response pg = (v, pg') \<Longrightarrow> siteConfig pg \<noteq> None \<or> response \<noteq> Failed \<Longrightarrow> console pg' = console pg"
  by (auto simp: loadConfig_def loadConfigFinish_def split: option.splits fetched.splits)

lemma runEvents_Nil [simp]: "runEvents [] r = r"
  by (simp add: runEvents_def)

lemma runEvents_Cons [simp]: "runEvents (e # es) r = runEvents es (step e r)"
  by (simp add: runEvents_def)

lemma step_Call_cached:
  "siteConfig (thePage r) = Some cfg \<Longrightarrow> step Call r = r\<lparr>results := results r @ [Some cfg]\<rparr>"
  by simp

lemma step_keeps_cached:
  assumes "siteConfig (thePage r) = Some cfg" "e = Call \<or> e = Settle Failed \<or> e = Settle (Loaded (Some cfg))"
  shows "siteConfig (thePage (step e r)) = Some cfg"
proof -
  from assms(2) consider "e = Call" | "e = Settle Failed" | "e = Settle (Loaded (Some cfg))"
    by blast
  then show ?thesis
  proof cases
    case 1
    with assms(1) show ?thesis by simp
  next
    case 2
    with assms(1) show ?thesis by (cases "waiting r = 0") (simp_all add: loadConfigFinish_def)
  next
    case 3
    with assms(1) show ?thesis by (cases "waiting r = 0") (simp_all add: loadConfigFinish_def)
  qed
qed

lemma step_empty_or_cfg:
  assumes "siteConfig (thePage r) = None \<or> siteConfig (thePage r) = Some cfg"
    and "e = Call \<or> e = Settle Failed \<or> e = Settle (Loaded (Some cfg))"
  shows "siteConfig (thePage (step e r)) = None \<or> siteConfig (thePage (step e r)) = Some cfg"
proof -
  from assms(2) consider "e = Call" | "e = Settle Failed" | "e = Settle (Loaded (Some cfg))"
    by blast
  then show ?thesis
  proof cases
    case 1
    with assms(1) show ?thesis by (cases "siteConfig (thePage r)") simp_all
  next
    case 2
    with assms(1) show ?thesis by (cases "waiting r = 0") (simp_all add: loadConfigFinish_def)
  next
    case 3
    with assms(1) show ?thesis by (cases "waiting r = 0") (simp_all add: loadConfigFinish_def)
  qed
qed

lemma run_keeps_cached:
  "siteConfig (thePage r) = Some cfg \<Longrightarrow> sameResponses cfg es \<Longrightarrow>
   siteConfig (thePage (runEvents es r)) = Some cfg"
proof (induction es arbitrary: r)
  case Nil
  then show ?case by simp
next
  case (Cons e es)
  from Cons.prems have e: "e = Call \<or> e = Settle Failed \<or> e = Settle (Loaded (Some cfg))"
    and es: "sameResponses cfg es"
    by (simp_all add: sameResponses_def)
  from step_keeps_cached [OF Cons.prems(1) e] have "siteConfig (thePage (step e r)) = Some cfg" .
  from Cons.IH [OF this es] show ?case by simp
qed

lemma run_empty_or_cfg:
  "siteConfig (thePage r) = None \<or> siteConfig (thePage r) = Some cfg \<Longrightarrow> sameResponses cfg es \<Longrightarrow>
   siteConfig (thePage (runEvents es r)) = None \<or> siteConfig (thePage (runEvents es r)) = Some cfg"
proof (induction es arbitrary: r)
  case Nil
  then show ?case by simp
next
  case (Cons e es)
  from Cons.prems have e: "e = Call \<or> e = Settle Failed \<or> e = Settle (Loaded (Some cfg))"
    and es: "sameResponses cfg es"
    by (simp_all add: sameResponses_def)
  from step_empty_or_cfg [OF Cons.prems(1) e]
  have "siteConfig (thePage (step e r)) = None \<or> siteConfig (thePage (step e r)) = Some cfg" .
  from Cons.IH [OF this es] show ?case by simp
qed

lemma run_cached_no_fetch:
  "siteConfig (thePage r) = Some cfg \<Longrightarrow> sameResponses cfg es \<Longrightarrow>
   fetches (runEvents es r) = fetches r"
proof (induction es arbitrary: r)
  case Nil
  then show ?case by simp
next
  case (Cons e es)
  from Cons.prems have e: "e = Call \<or> e = Settle Failed \<or> e = Settle (Loaded (Some cfg))"
    and es: "sameResponses cfg es"
    by (simp_all add: sameResponses_def)
  from step_keeps_cached [OF Cons.prems(1) e] have c: "siteConfig (thePage (step e r)) = Some cfg" .
  from e consider "e = Call" | "e = Settle Failed" | "e = Settle (Loaded (Some cfg))"
    by blast
  then have "fetches (step e r) = fetches r"
  proof cases
    case 1
    with Cons.prems(1) show ?thesis by simp
  next
    case 2
    then show ?thesis by (cases "waiting r = 0") (simp_all add: loadConfigFinish_def)
  next
    case 3
    then show ?thesis by (cases "waiting r = 0") (simp_all add: loadConfigFinish_def)
  qed
  with Cons.IH [OF c es] show ?case by simp
qed

lemma sequential_is_loadConfig:
  assumes "waiting r = 0"
  shows "thePage (runEvents [Call, Settle response] r) = snd (loadConfig response (thePage r))"
    and "results (runEvents [Call, Settle response] r) = results r @ [fst (loadConfig response (thePage r))]"
  using assms
  by (cases "siteConfig (thePage r)"; cases response; simp add: loadConfig_def loadConfigFinish_def)+

lemma runEvents_append: "runEvents (es @ fs) r = runEvents fs (runEvents es r)"
  by (simp add: runEvents_def)

lemma step_written_same:
  assumes "list_all (\<lambda>v. v = Some cfg) (written r)"
    and "e = Call \<or> e = Settle Failed \<or> e = Settle (Loaded (Some cfg))"
  shows "list_all (\<lambda>v. v = Some cfg) (written (step e r))"
proof -
  from assms(2) consider "e = Call" | "e = Settle Failed" | "e = Settle (Loaded (Some cfg))"
    by blast
  then show ?thesis
  proof cases
    case 1
    with assms(1) show ?thesis by (cases "siteConfig (thePage r)") simp_all
  next
    case 2
    with assms(1) show ?thesis by (cases "waiting r = 0") (simp_all add: loadConfigFinish_def)
  next
    case 3
    with assms(1) show ?thesis by (cases "waiting r = 0") (simp_all add: loadConfigFinish_def)
  qed
qed

lemma run_written_same:
  "list_all (\<lambda>v. v = Some cfg) (written r) \<Longrightarrow> sameResponses cfg es \<Longrightarrow>
   list_all (\<lambda>v. v = Some cfg) (written (runEvents es r))"
proof (induction es arbitrary: r)
  case Nil
  then show ?case by simp
next
  case (Cons e es)
  from Cons.prems have e: "e = Call \<or> e = Settle Failed \<or> e = Settle (Loaded (Some cfg))"
    and es: "sameResponses cfg es"
    by (simp_all add: sameResponses_def)
  from Cons.IH [OF step_written_same [OF Cons.prems(1) e] es] show ?case by simp
qed

lemma inTurn_Cons: "inTurn (response # rs) = Call # Settle response # inTurn rs"
  by (simp add: inTurn_def)

lemma inTurn_cached:
  assumes "siteConfig (thePage r) = Some cfg" "waiting r = 0"
  shows "written (runEvents (inTurn rs) r) = written r \<and> fetches (runEvents (inTurn rs) r) = fetches r"
  using assms
proof (induction rs arbitrary: r)
  case Nil
  then show ?case by (simp add: inTurn_def)
next
  case (Cons response rs)
  let ?r = "step (Settle response) (step Call r)"
  from Cons.prems have "?r = r\<lparr>results := results r @ [Some cfg]\<rparr>"
    by simp
  with Cons.prems have "siteConfig (thePage ?r) = Some cfg" "waiting ?r = 0"
    "written ?r = written r" "fetches ?r = fetches r"
    by simp_all
  with Cons.IH [of ?r] show ?case by (simp add: inTurn_Cons)
qed

lemma inTurn_empty:
  assumes "siteConfig (thePage r) = None" "waiting r = 0"
    and "list_all (\<lambda>response. response = Failed \<or> response = Loaded (Some cfg)) rs"
  shows "written (runEvents (inTurn rs) r)
           = written r @ (if Loaded (Some cfg) \<in> set rs then [Some cfg] else []) \<and>
         fetches (runEvents (inTurn rs) r)
           = fetches r + length (takeWhile (\<lambda>response. response = Failed) rs) +
             (if Loaded (Some cfg) \<in> set rs then 1 else 0)"
  using assms
proof (induction rs arbitrary: r)
  case Nil
  then show ?case by (simp add: inTurn_def)
next
  case (Cons response rs)
  let ?r = "step (Settle response) (step Call r)"
  from Cons.prems(3) have rs: "list_all (\<lambda>response. response = Failed \<or> response = Loaded (Some cfg)) rs"
    and "response = Failed \<or> response = Loaded (Some cfg)"
    by simp_all
  from this(2) show ?case
  proof
    assume f: "response = Failed"
    with Cons.prems(1,2) have "siteConfig (thePage ?r) = None" "waiting ?r = 0"
      "written ?r = written r" "fetches ?r = Suc (fetches r)"
      by (simp_all add: loadConfigFinish_def)
    with Cons.IH [OF this(1,2) rs] f show ?thesis by (simp add: inTurn_Cons)
  next
    assume l: "response = Loaded (Some cfg)"
    with Cons.prems(1,2) have "siteConfig (thePage ?r) = Some cfg" "waiting ?r = 0"
      "written ?r = written r @ [Some cfg]" "fetches ?r = Suc (fetches r)"
      by (simp_all add: loadConfigFinish_def)
    with inTurn_cached [OF this(1,2), of rs] l show ?thesis by (simp add: inTurn_Cons)
  qed
qed

section \<open>Claims\<close>

text \<open>
  C1. For every input string, \<^verbatim>\<open>formatInlineMarkdown\<close> is the result of three regex
  substitutions in the fixed order links, bold, italic. A string with neither \<^verbatim>\<open>[\<close> nor
  \<^verbatim>\<open>*\<close> is returned unchanged; inside plain text, \<^verbatim>\<open>[t](u)\<close> becomes an anchor with
  \<^verbatim>\<open>target="_blank"\<close>, \<^verbatim>\<open>**t**\<close> becomes \<^verbatim>\<open><strong>t</strong>\<close> and \<^verbatim>\<open>*t*\<close> becomes
  \<^verbatim>\<open><em>t</em>\<close>; the two examples of the specification evaluate as it says.
\<close>

theorem formatInlineMarkdown_substitutions:
  \<open>(\<forall>text. formatInlineMarkdown text =
      replace (replace (replace text linkRe linkTp) boldRe boldTp) italicRe italicTp)
   \<and> (\<forall>text. plainText text \<longrightarrow> formatInlineMarkdown text = text)
   \<and> (\<forall>pre t u post. plainText pre \<and> plainText post \<and> t \<noteq> [] \<and> u \<noteq> []
         \<and> ch CHR '']'' \<notin> set t \<and> ch CHR '')'' \<notin> set u \<and> ch CHR ''*'' \<notin> set t \<and> ch CHR ''*'' \<notin> set u \<longrightarrow>
       formatInlineMarkdown (pre @ str ''['' @ t @ str '']('' @ u @ str '')'' @ post)
         = pre @ str ''<a href="'' @ u @ str ''" target="_blank">'' @ t @ str ''</a>'' @ post)
   \<and> (\<forall>pre t post. plainText pre \<and> plainText post \<and> plainText t \<and> t \<noteq> [] \<longrightarrow>
       formatInlineMarkdown (pre @ str ''**'' @ t @ str ''**'' @ post)
         = pre @ str ''<strong>'' @ t @ str ''</strong>'' @ post)
   \<and> (\<forall>pre t post. plainText pre \<and> plainText post \<and> plainText t \<and> t \<noteq> [] \<longrightarrow>
       formatInlineMarkdown (pre @ str ''*'' @ t @ str ''*'' @ post)
         = pre @ str ''<em>'' @ t @ str ''</em>'' @ post)
   \<and> formatInlineMarkdown (str ''**a**'') = str ''<strong>a</strong>''
   \<and> formatInlineMarkdown (str ''[a](http://b)'') = str ''<a href="http://b" target="_blank">a</a>''\<close>
proof (intro conjI allI impI)
  fix s
  show "formatInlineMarkdown s =
      replace (replace (replace s linkRe linkTp) boldRe boldTp) italicRe italicTp"
    by (simp add: formatInlineMarkdown_def)
next
  fix s assume "plainText s"
  then show "formatInlineMarkdown s = s"
    by (simp add: formatInlineMarkdown_def plainText_def link_id bold_id italic_id)
next
  fix pre t u post
  assume a: "plainText pre \<and> plainText post \<and> t \<noteq> [] \<and> u \<noteq> []
         \<and> ch CHR '']'' \<notin> set t \<and> ch CHR '')'' \<notin> set u \<and> ch CHR ''*'' \<notin> set t \<and> ch CHR ''*'' \<notin> set u"
  then have l: "replace (pre @ ch CHR ''['' # t @ str '']('' @ u @ ch CHR '')'' # post) linkRe linkTp
       = pre @ anchor t u @ post"
    by (intro link_pass) (auto simp: plainText_def)
  from a anchor_no_star [of t u] have "ch CHR ''*'' \<notin> set (pre @ anchor t u @ post)"
    by (simp add: plainText_def)
  then have "replace (replace (pre @ anchor t u @ post) boldRe boldTp) italicRe italicTp = pre @ anchor t u @ post"
    by (simp add: bold_id italic_id)
  with l show \<open>formatInlineMarkdown (pre @ str ''['' @ t @ str '']('' @ u @ str '')'' @ post)
         = pre @ str ''<a href="'' @ u @ str ''" target="_blank">'' @ t @ str ''</a>'' @ post\<close>
    by (simp add: formatInlineMarkdown_def anchor_def str_def)
next
  fix pre t post
  assume a: "plainText pre \<and> plainText post \<and> plainText t \<and> t \<noteq> []"
  then have "ch CHR ''['' \<notin> set (pre @ str ''**'' @ t @ str ''**'' @ post)"
    by (simp add: plainText_def str_def)
  then have "replace (pre @ str ''**'' @ t @ str ''**'' @ post) linkRe linkTp = pre @ str ''**'' @ t @ str ''**'' @ post"
    by (rule link_id)
  moreover from a have "replace (pre @ str ''**'' @ t @ str ''**'' @ post) boldRe boldTp
       = pre @ str ''<strong>'' @ t @ str ''</strong>'' @ post"
    by (intro bold_pass) (auto simp: plainText_def)
  moreover from a have "ch CHR ''*'' \<notin> set (pre @ str ''<strong>'' @ t @ str ''</strong>'' @ post)"
    by (simp add: plainText_def str_def)
  ultimately show "formatInlineMarkdown (pre @ str ''**'' @ t @ str ''**'' @ post)
         = pre @ str ''<strong>'' @ t @ str ''</strong>'' @ post"
    by (simp add: formatInlineMarkdown_def italic_id)
next
  fix pre t post
  assume a: "plainText pre \<and> plainText post \<and> plainText t \<and> t \<noteq> []"
  then have "ch CHR ''['' \<notin> set (pre @ ch CHR ''*'' # t @ ch CHR ''*'' # post)"
    by (simp add: plainText_def)
  then have "replace (pre @ ch CHR ''*'' # t @ ch CHR ''*'' # post) linkRe linkTp = pre @ ch CHR ''*'' # t @ ch CHR ''*'' # post"
    by (rule link_id)
  moreover from a have "\<not> hasDouble (ch CHR ''*'') (pre @ ch CHR ''*'' # t @ ch CHR ''*'' # post)"
    by (intro single_star_noDouble) (auto simp: plainText_def)
  then have "replace (pre @ ch CHR ''*'' # t @ ch CHR ''*'' # post) boldRe boldTp = pre @ ch CHR ''*'' # t @ ch CHR ''*'' # post"
    by (rule bold_id)
  moreover from a have "replace (pre @ ch CHR ''*'' # t @ ch CHR ''*'' # post) italicRe italicTp
       = pre @ str ''<em>'' @ t @ str ''</em>'' @ post"
    by (intro italic_pass) (auto simp: plainText_def)
  ultimately show "formatInlineMarkdown (pre @ str ''*'' @ t @ str ''*'' @ post)
         = pre @ str ''<em>'' @ t @ str ''</em>'' @ post"
    by (simp add: formatInlineMarkdown_def str_def)
next
  show "formatInlineMarkdown (str ''**a**'') = str ''<strong>a</strong>''"
    by code_simp
next
  show \<open>formatInlineMarkdown (str ''[a](http://b)'') = str ''<a href="http://b" target="_blank">a</a>''\<close>
    by code_simp
qed

text \<open>The universally quantified parts of C1 at concrete strings.\<close>

theorem formatInlineMarkdown_substitutions_witness:
  \<open>formatInlineMarkdown (str ''no markers here'') = str ''no markers here''
   \<and> formatInlineMarkdown (str ''see '' @ str ''['' @ str ''docs'' @ str '']('' @ str ''http://x.org/a'' @ str '')'' @ str '' now'')
       = str ''see '' @ str ''<a href="'' @ str ''http://x.org/a'' @ str ''" target="_blank">'' @ str ''docs'' @ str ''</a>'' @ str '' now''
   \<and> formatInlineMarkdown (str ''a '' @ str ''**'' @ str ''b c'' @ str ''**'' @ str '' d'')
       = str ''a '' @ str ''<strong>'' @ str ''b c'' @ str ''</strong>'' @ str '' d''
   \<and> formatInlineMarkdown (str ''a '' @ str ''*'' @ str ''b c'' @ str ''*'' @ str '' d'')
       = str ''a '' @ str ''<em>'' @ str ''b c'' @ str ''</em>'' @ str '' d''\<close>
proof (intro conjI)
  note T = formatInlineMarkdown_substitutions
  show "formatInlineMarkdown (str ''no markers here'') = str ''no markers here''"
    by (rule T [THEN conjunct2, THEN conjunct1, rule_format]) (simp add: plainText_def str_def)
  show \<open>formatInlineMarkdown (str ''see '' @ str ''['' @ str ''docs'' @ str '']('' @ str ''http://x.org/a'' @ str '')'' @ str '' now'')
       = str ''see '' @ str ''<a href="'' @ str ''http://x.org/a'' @ str ''" target="_blank">'' @ str ''docs'' @ str ''</a>'' @ str '' now''\<close>
    by (rule T [THEN conjunct2, THEN conjunct2, THEN conjunct1, rule_format]) (simp add: plainText_def str_def)
  show "formatInlineMarkdown (str ''a '' @ str ''**'' @ str ''b c'' @ str ''**'' @ str '' d'')
       = str ''a '' @ str ''<strong>'' @ str ''b c'' @ str ''</strong>'' @ str '' d''"
    by (rule T [THEN conjunct2, THEN conjunct2, THEN conjunct2, THEN conjunct1, rule_format]) (simp add: plainText_def str_def)
  show "formatInlineMarkdown (str ''a '' @ str ''*'' @ str ''b c'' @ str ''*'' @ str '' d'')
       = str ''a '' @ str ''<em>'' @ str ''b c'' @ str ''</em>'' @ str '' d''"
    by (rule T [THEN conjunct2, THEN conjunct2, THEN conjunct2, THEN conjunct2, THEN conjunct1, rule_format]) (simp add: plainText_def str_def)
qed

text \<open>
  C2, as amended. For every input without two consecutive newlines \<^verbatim>\<open>parseMarkdown\<close> yields
  exactly one block: the converted text, trimmed, is wrapped in one \<^verbatim>\<open><p>\<close> element unless
  it is empty or begins with \<^verbatim>\<open><h\<close>, \<^verbatim>\<open><figure\<close>, \<^verbatim>\<open><ul\<close>, \<^verbatim>\<open><ol\<close> or \<^verbatim>\<open></\<close>, and
  then it is emitted unwrapped. In particular a text without Markdown markers that neither
  starts with \<^verbatim>\<open><\<close> or \<^verbatim>\<open>-\<close> nor has white space at its ends is wrapped whole.
\<close>

theorem parseMarkdown_no_blank_line:
  "(\<forall>md. \<not> hasDouble 0x0A md \<longrightarrow>
      (let block = trim (inlineHtml (replace md frontmatterRe [])) in
       parseMarkdown md =
         (if block = [] then []
          else if startsWith block (str ''<h'') \<or> startsWith block (str ''<figure'') \<or>
                  startsWith block (str ''<ul'') \<or> startsWith block (str ''<ol'') \<or>
                  startsWith block (str ''</'') then block
          else str ''<p>'' @ block @ str ''</p>'')))
   \<and> (\<forall>md. \<not> hasDouble 0x0A md \<and> markerFree md \<and> md \<noteq> [] \<and> \<not> isWhiteSpace (hd md) \<and>
        \<not> isWhiteSpace (last md) \<and> hd md \<noteq> ch CHR ''<'' \<and> hd md \<noteq> ch CHR ''-'' \<longrightarrow>
      parseMarkdown md = str ''<p>'' @ md @ str ''</p>'')"
proof (intro conjI allI impI)
  fix md :: jsstring
  assume "\<not> hasDouble 0x0A md"
  then have "parseMarkdown md = wrapBlock (inlineHtml (replace md frontmatterRe []))"
    by (rule parseMarkdown_single_block)
  then show "let block = trim (inlineHtml (replace md frontmatterRe [])) in
       parseMarkdown md =
         (if block = [] then []
          else if startsWith block (str ''<h'') \<or> startsWith block (str ''<figure'') \<or>
                  startsWith block (str ''<ul'') \<or> startsWith block (str ''<ol'') \<or>
                  startsWith block (str ''</'') then block
          else str ''<p>'' @ block @ str ''</p>'')"
    by (simp only: wrapBlock_def Let_def)
next
  fix md :: jsstring
  assume a: "\<not> hasDouble 0x0A md \<and> markerFree md \<and> md \<noteq> [] \<and> \<not> isWhiteSpace (hd md) \<and>
        \<not> isWhiteSpace (last md) \<and> hd md \<noteq> ch CHR ''<'' \<and> hd md \<noteq> ch CHR ''-''"
  then have "parseMarkdown md = wrapBlock (inlineHtml (replace md frontmatterRe []))"
    by (intro parseMarkdown_single_block) simp
  also from a have "replace md frontmatterRe [] = md"
    by (intro frontmatter_id) simp
  also from a have "inlineHtml md = md"
    by (intro inlineHtml_markerFree) simp
  also from a have "wrapBlock md = str ''<p>'' @ md @ str ''</p>''"
    by (intro wrapBlock_plain) simp_all
  finally show "parseMarkdown md = str ''<p>'' @ md @ str ''</p>''" .
qed

text \<open>Both parts of C2 at concrete inputs.\<close>

theorem parseMarkdown_no_blank_line_witness:
  "parseMarkdown (str ''Hello, world.'') = str ''<p>Hello, world.</p>''
   \<and> parseMarkdown (str ''  ## Not a heading '') = str ''<p>## Not a heading</p>''"
proof (intro conjI)
  note T = parseMarkdown_no_blank_line
  have "parseMarkdown (str ''Hello, world.'') = str ''<p>'' @ str ''Hello, world.'' @ str ''</p>''"
    by (rule T [THEN conjunct2, rule_format])
       (simp add: str_def markerFree_def isWhiteSpace_def isLineTerminator_def)
  then show "parseMarkdown (str ''Hello, world.'') = str ''<p>Hello, world.</p>''"
    by (simp add: str_def)
  have n: "\<not> hasDouble 0x0A (str ''  ## Not a heading '')"
    by (simp add: str_def)
  have b: "trim (inlineHtml (replace (str ''  ## Not a heading '') frontmatterRe [])) = str ''## Not a heading''"
    by code_simp
  from T [THEN conjunct1, rule_format, OF n]
  show "parseMarkdown (str ''  ## Not a heading '') = str ''<p>## Not a heading</p>''"
    unfolding b Let_def by (simp add: str_def startsWith_def)
qed

text \<open>
  The claim as stated fails: \<^verbatim>\<open># a\<close> is non-empty, has no blank line and no frontmatter, and is
  rendered as a heading, without any paragraph.
\<close>

theorem parseMarkdown_no_blank_line_counterexample:
  "str ''# a'' \<noteq> [] \<and> \<not> hasDouble 0x0A (str ''# a'') \<and> replace (str ''# a'') frontmatterRe [] = str ''# a''
   \<and> parseMarkdown (str ''# a'') = str ''<h1>a</h1>''"
  by code_simp



text \<open>
  C4. Where the blog body and the outline list exist, \<^verbatim>\<open>generateTableOfContents\<close> gives the
  \<open>k\<close>-th \<^verbatim>\<open>h2\<close>/\<^verbatim>\<open>h3\<close> element of the body, counted from 0 in document order, the id
  \<^verbatim>\<open>section-k\<close>, and appends one outline entry per heading, in the same order, that links to
  \<^verbatim>\<open>#section-k\<close> and carries the heading's text. One \<^verbatim>\<open>h2\<close> and two \<^verbatim>\<open>h3\<close> give exactly the
  three entries \<^verbatim>\<open>section-0\<close>, \<^verbatim>\<open>section-1\<close>, \<^verbatim>\<open>section-2\<close>. Without such headings the outline
  container, if there is one, gets \<^verbatim>\<open>display: none\<close> and nothing else changes.
\<close>

theorem generateTableOfContents_sections:
  "(\<forall>doc body toc. blogBody doc = Some body \<and> tocList doc = Some toc \<and> filter isHeading body \<noteq> [] \<longrightarrow>
      (\<exists>body' new.
         blogBody (generateTableOfContents doc) = Some body' \<and>
         tocList (generateTableOfContents doc) = Some (toc @ new) \<and>
         length new = length (filter isHeading body) \<and>
         map tagName body' = map tagName body \<and>
         map elemId (filter isHeading body') = map sectionId [0 ..< length (filter isHeading body)] \<and>
         map (\<lambda>item. link_href (item_link item)) new
           = map (\<lambda>i. str ''#'' @ sectionId i) [0 ..< length (filter isHeading body)] \<and>
         map (\<lambda>item. link_text (item_link item)) new = map textContent (filter isHeading body)))
   \<and> (\<forall>doc body. blogBody doc = Some body \<and> tocList doc = Some [] \<and>
        map tagName (filter isHeading body) = [str ''H2'', str ''H3'', str ''H3''] \<longrightarrow>
      (\<exists>body' e0 e1 e2.
         blogBody (generateTableOfContents doc) = Some body' \<and>
         map elemId (filter isHeading body') = [str ''section-0'', str ''section-1'', str ''section-2''] \<and>
         tocList (generateTableOfContents doc) = Some [e0, e1, e2] \<and>
         map (\<lambda>item. link_href (item_link item)) [e0, e1, e2]
           = [str ''#section-0'', str ''#section-1'', str ''#section-2'']))
   \<and> (\<forall>doc body toc. blogBody doc = Some body \<and> tocList doc = Some toc \<and> filter isHeading body = [] \<longrightarrow>
        generateTableOfContents doc = doc\<lparr>blogToc := map_option (\<lambda>_. str ''none'') (blogToc doc)\<rparr>)"
proof -
  have general: "\<exists>body' new.
         blogBody (generateTableOfContents doc) = Some body' \<and>
         tocList (generateTableOfContents doc) = Some (toc @ new) \<and>
         length new = length (filter isHeading body) \<and>
         map tagName body' = map tagName body \<and>
         map elemId (filter isHeading body') = map sectionId [0 ..< length (filter isHeading body)] \<and>
         map (\<lambda>item. link_href (item_link item)) new
           = map (\<lambda>i. str ''#'' @ sectionId i) [0 ..< length (filter isHeading body)] \<and>
         map (\<lambda>item. link_text (item_link item)) new = map textContent (filter isHeading body)"
    if a: "blogBody doc = Some body \<and> tocList doc = Some toc \<and> filter isHeading body \<noteq> []"
    for doc body toc
  proof (intro exI conjI)
    let ?new = "map (\<lambda>(index, heading). tocEntry index heading) (enumerate 0 (filter isHeading body))"
    from a show "blogBody (generateTableOfContents doc) = Some (numberHeadings 0 body)"
      by (simp add: generateTableOfContents_def)
    from a show "tocList (generateTableOfContents doc) = Some (toc @ ?new)"
      by (simp add: generateTableOfContents_def)
    show "length ?new = length (filter isHeading body)"
      by simp
    show "map tagName (numberHeadings 0 body) = map tagName body"
      by (rule numberHeadings_keeps)
    show "map elemId (filter isHeading (numberHeadings 0 body)) = map sectionId [0 ..< length (filter isHeading body)]"
      using numberHeadings_ids [of 0 body] by simp
    show "map (\<lambda>item. link_href (item_link item)) ?new
           = map (\<lambda>i. str ''#'' @ sectionId i) [0 ..< length (filter isHeading body)]"
      using enumerate_hrefs [of 0 "filter isHeading body"] by (simp add: case_prod_unfold comp_def)
    show "map (\<lambda>item. link_text (item_link item)) ?new = map textContent (filter isHeading body)"
      using enumerate_texts [of 0 "filter isHeading body"] by (simp add: case_prod_unfold comp_def)
  qed
  have three: "\<exists>body' e0 e1 e2.
         blogBody (generateTableOfContents doc) = Some body' \<and>
         map elemId (filter isHeading body') = [str ''section-0'', str ''section-1'', str ''section-2''] \<and>
         tocList (generateTableOfContents doc) = Some [e0, e1, e2] \<and>
         map (\<lambda>item. link_href (item_link item)) [e0, e1, e2]
           = [str ''#section-0'', str ''#section-1'', str ''#section-2'']"
    if a: "blogBody doc = Some body \<and> tocList doc = Some [] \<and>
        map tagName (filter isHeading body) = [str ''H2'', str ''H3'', str ''H3'']"
    for doc body
  proof -
    from a have "length (map tagName (filter isHeading body)) = 3"
      by simp
    then have n: "length (filter isHeading body) = 3"
      by simp
    then have "filter isHeading body \<noteq> []"
      by auto
    with a general [of doc body "[]"] obtain body' new where
      g: "blogBody (generateTableOfContents doc) = Some body'"
        "tocList (generateTableOfContents doc) = Some new"
        "length new = 3"
        "map elemId (filter isHeading body') = map sectionId [0 ..< 3]"
        "map (\<lambda>item. link_href (item_link item)) new = map (\<lambda>i. str ''#'' @ sectionId i) [0 ..< 3]"
      unfolding n by auto
    from g(3) obtain e0 e1 e2 where new: "new = [e0, e1, e2]"
      by (auto simp: length_Suc_conv numeral_3_eq_3)
    have u: "[0 ..< 3] = [0, 1, 2]"
      by (simp add: upt_rec)
    from g(4) have i: "map elemId (filter isHeading body') = [str ''section-0'', str ''section-1'', str ''section-2'']"
      unfolding u by (simp add: sectionId_small(1,3) sectionId_small(2) [unfolded One_nat_def])
    from g(5) have h: "map (\<lambda>item. link_href (item_link item)) [e0, e1, e2]
           = [str ''#section-0'', str ''#section-1'', str ''#section-2'']"
      unfolding u new by (simp add: sectionId_small(1,3) sectionId_small(2) [unfolded One_nat_def] str_def)
    from g(2) new have t: "tocList (generateTableOfContents doc) = Some [e0, e1, e2]"
      by simp
    show ?thesis
      by (intro exI conjI) (rule g(1), rule i, rule t, rule h)
  qed
  have none: "generateTableOfContents doc = doc\<lparr>blogToc := map_option (\<lambda>_. str ''none'') (blogToc doc)\<rparr>"
    if "blogBody doc = Some body \<and> tocList doc = Some toc \<and> filter isHeading body = []"
    for doc body toc
    using that by (cases "blogToc doc") (simp_all add: generateTableOfContents_def)
  from general three none show ?thesis
    by (intro conjI allI impI)
qed

text \<open>C4 on a body with one \<^verbatim>\<open>h2\<close> and two \<^verbatim>\<open>h3\<close>, and on a body without headings.\<close>

theorem generateTableOfContents_sections_witness:
  "(\<exists>body' e0 e1 e2.
         blogBody (generateTableOfContents exampleDoc) = Some body' \<and>
         map elemId (filter isHeading body') = [str ''section-0'', str ''section-1'', str ''section-2''] \<and>
         tocList (generateTableOfContents exampleDoc) = Some [e0, e1, e2] \<and>
         map (\<lambda>item. link_href (item_link item)) [e0, e1, e2]
           = [str ''#section-0'', str ''#section-1'', str ''#section-2''])
   \<and> generateTableOfContents plainDoc = plainDoc\<lparr>blogToc := Some (str ''none'')\<rparr>"
proof (intro conjI)
  note T = generateTableOfContents_sections
  show "\<exists>body' e0 e1 e2.
         blogBody (generateTableOfContents exampleDoc) = Some body' \<and>
         map elemId (filter isHeading body') = [str ''section-0'', str ''section-1'', str ''section-2''] \<and>
         tocList (generateTableOfContents exampleDoc) = Some [e0, e1, e2] \<and>
         map (\<lambda>item. link_href (item_link item)) [e0, e1, e2]
           = [str ''#section-0'', str ''#section-1'', str ''#section-2'']"
    by (rule T [THEN conjunct2, THEN conjunct1, rule_format, where body = exampleBody])
       (simp add: exampleDoc_def exampleBody_def isHeading_def str_def)
  have "generateTableOfContents plainDoc = plainDoc\<lparr>blogToc := map_option (\<lambda>_. str ''none'') (blogToc plainDoc)\<rparr>"
    by (rule T [THEN conjunct2, THEN conjunct2, rule_format, where body = "take 1 exampleBody" and toc = "[]"])
       (simp add: plainDoc_def exampleBody_def isHeading_def str_def)
  then show "generateTableOfContents plainDoc = plainDoc\<lparr>blogToc := Some (str ''none'')\<rparr>"
    by (simp add: plainDoc_def)
qed

text \<open>
  C5, as amended. \<^verbatim>\<open>parseMarkdown\<close> joins the renderings of the blocks of the converted text.
  A block is trimmed first; a block that is empty after trimming yields the empty string, a block
  that then begins with \<^verbatim>\<open><h\<close>, \<^verbatim>\<open><figure\<close>, \<^verbatim>\<open><ul\<close>, \<^verbatim>\<open><ol\<close> or \<^verbatim>\<open></\<close> is emitted without
  a paragraph tag, and every other block is wrapped in \<^verbatim>\<open><p>\<close>. A document that starts with
  one of these five prefixes is rendered to a string that starts with it, so it is not re-wrapped.
\<close>

theorem parseMarkdown_block_wrapping:
  "(\<forall>md. parseMarkdown md =
      join [0x0A] (map wrapBlock (split (inlineHtml (replace md frontmatterRe [])) blankLinesRe)))
   \<and> (\<forall>b. trim b = [] \<longrightarrow> wrapBlock b = [])
   \<and> (\<forall>b tag. tag \<in> set blockTags \<and> startsWith (trim b) tag \<longrightarrow> wrapBlock b = trim b)
   \<and> (\<forall>b. trim b \<noteq> [] \<and> (\<forall>tag\<in>set blockTags. \<not> startsWith (trim b) tag) \<longrightarrow>
         wrapBlock b = str ''<p>'' @ trim b @ str ''</p>'')
   \<and> (\<forall>md tag. tag \<in> set blockTags \<and> startsWith md tag \<longrightarrow> startsWith (parseMarkdown md) tag)"
proof (intro conjI allI impI)
  fix md
  show "parseMarkdown md =
      join [0x0A] (map wrapBlock (split (inlineHtml (replace md frontmatterRe [])) blankLinesRe))"
    by (simp add: parseMarkdown_def paragraphs_def)
next
  fix b :: jsstring
  assume "trim b = []"
  then show "wrapBlock b = []"
    by (simp add: wrapBlock_def)
next
  fix b tag :: jsstring
  assume a: "tag \<in> set blockTags \<and> startsWith (trim b) tag"
  then have "tag \<noteq> []"
    by (auto simp: blockTags_def str_def)
  with a have "trim b \<noteq> []"
    by (auto simp: startsWith_def)
  with a show "wrapBlock b = trim b"
    by (auto simp: wrapBlock_def blockTags_def)
next
  fix b :: jsstring
  assume "trim b \<noteq> [] \<and> (\<forall>tag\<in>set blockTags. \<not> startsWith (trim b) tag)"
  then show "wrapBlock b = str ''<p>'' @ trim b @ str ''</p>''"
    by (simp add: wrapBlock_def blockTags_def)
next
  fix md tag :: jsstring
  assume a: "tag \<in> set blockTags \<and> startsWith md tag"
  then have i: "inert tag"
    using inert_tags by (auto simp: blockTags_def)
  from a have "md = tag @ drop (length tag) md"
    by (metis append_take_drop_id startsWith_def)
  moreover from a have "tag \<in> {str ''<h'', str ''<figure'', str ''<ul'', str ''<ol'', str ''</''}"
    by (simp add: blockTags_def)
  from parseMarkdown_keeps_tag [OF i this, of "drop (length tag) md"]
  obtain r where "parseMarkdown (tag @ drop (length tag) md) = tag @ r" ..
  ultimately have "parseMarkdown md = tag @ r"
    by simp
  then show "startsWith (parseMarkdown md) tag"
    by simp
qed

text \<open>The four conditional parts of C5 at concrete blocks and a concrete document.\<close>

theorem parseMarkdown_block_wrapping_witness:
  "wrapBlock (str ''   '') = []
   \<and> wrapBlock (str '' <figure>x</figure> '') = str ''<figure>x</figure>''
   \<and> wrapBlock (str '' some text'') = str ''<p>'' @ str ''some text'' @ str ''</p>''
   \<and> startsWith (parseMarkdown (str (''<h2>Title</h2>'' @ [CHR 0x0A, CHR 0x0A] @ ''*text*''))) (str ''<h'')"
proof (intro conjI)
  note T = parseMarkdown_block_wrapping
  have t1: "trim (str ''   '') = []"
    by code_simp
  have t2: "trim (str '' <figure>x</figure> '') = str ''<figure>x</figure>''"
    by code_simp
  have t3: "trim (str '' some text'') = str ''some text''"
    by code_simp
  show "wrapBlock (str ''   '') = []"
    by (rule T [THEN conjunct2, THEN conjunct1, rule_format]) (rule t1)
  have "wrapBlock (str '' <figure>x</figure> '') = trim (str '' <figure>x</figure> '')"
    by (rule T [THEN conjunct2, THEN conjunct2, THEN conjunct1, rule_format, where tag = "str ''<figure''"])
       (simp add: t2 blockTags_def, simp add: str_def startsWith_def)
  then show "wrapBlock (str '' <figure>x</figure> '') = str ''<figure>x</figure>''"
    by (simp add: t2)
  have "wrapBlock (str '' some text'') = str ''<p>'' @ trim (str '' some text'') @ str ''</p>''"
    by (rule T [THEN conjunct2, THEN conjunct2, THEN conjunct2, THEN conjunct1, rule_format])
       (simp add: t3 blockTags_def, simp add: str_def startsWith_def)
  then show "wrapBlock (str '' some text'') = str ''<p>'' @ str ''some text'' @ str ''</p>''"
    by (simp add: t3)
  show "startsWith (parseMarkdown (str (''<h2>Title</h2>'' @ [CHR 0x0A, CHR 0x0A] @ ''*text*''))) (str ''<h'')"
    by (rule T [THEN conjunct2, THEN conjunct2, THEN conjunct2, THEN conjunct2, rule_format])
       (simp add: blockTags_def str_def startsWith_def)
qed

text \<open>
  The claim as stated fails twice: \<^verbatim>\<open><hr>\<close> is no heading, figure, list or closing tag, yet it
  is not wrapped, since the test is the prefix \<^verbatim>\<open><h\<close>; and a block holding one space is not
  empty, yet it is emitted as the empty string, not as a paragraph.
\<close>

theorem parseMarkdown_block_wrapping_counterexample:
  "parseMarkdown (str ''<hr>'') = str ''<hr>''
   \<and> parseMarkdown (str (''a'' @ [CHR 0x0A, CHR 0x0A] @ '' '' @ [CHR 0x0A, CHR 0x0A] @ ''b''))
       = str (''<p>a</p>'' @ [CHR 0x0A, CHR 0x0A] @ ''<p>b</p>'')"
  by code_simp

text \<open>
  C6. \<^verbatim>\<open>parseMarkdown\<close> removes the frontmatter with the pattern \<^verbatim>\<open>/^---[\s\S]*?---\n/\<close> of line 107,
  under the comment \<^verbatim>\<open>Remove frontmatter (YAML between ---)\<close>. The pattern asks for a line feed
  directly after the closing \<^verbatim>\<open>---\<close>. In a document with CRLF line ends, and in one that ends
  with the closing \<^verbatim>\<open>---\<close>, there is none: nothing is removed and the frontmatter is rendered
  as a paragraph. The same document with bare line feeds is rendered without its frontmatter
  (in general: \<open>parseMarkdown_strips_frontmatter_lf\<close>).
\<close>

theorem parseMarkdown_frontmatter_not_stripped:
  "parseMarkdown (str (''---'' @ [CHR 0x0D, CHR 0x0A] @ ''title: x'' @ [CHR 0x0D, CHR 0x0A] @ ''---'' @ [CHR 0x0D, CHR 0x0A] @ ''Body''))
     = str (''<p>---'' @ [CHR 0x0D, CHR 0x0A] @ ''title: x'' @ [CHR 0x0D, CHR 0x0A] @ ''---'' @ [CHR 0x0D, CHR 0x0A] @ ''Body</p>'')
   \<and> parseMarkdown (str (''---'' @ [CHR 0x0A] @ ''title: x'' @ [CHR 0x0A] @ ''---''))
     = str (''<p>---'' @ [CHR 0x0A] @ ''title: x'' @ [CHR 0x0A] @ ''---</p>'')
   \<and> parseMarkdown (str (''---'' @ [CHR 0x0A] @ ''title: x'' @ [CHR 0x0A] @ ''---'' @ [CHR 0x0A] @ ''Body''))
     = str ''<p>Body</p>''"
  by code_simp

text \<open>
  C7. The inline formatter is not idempotent: at \<^verbatim>\<open>**a*b*\<close> the first application leaves a
  pair of asterisks around the emitted \<^verbatim>\<open><em>\<close> element, which the second application
  turns into another \<^verbatim>\<open><em>\<close> element.
\<close>

theorem formatInlineMarkdown_not_idempotent:
  "\<exists>x. formatInlineMarkdown (formatInlineMarkdown x) \<noteq> formatInlineMarkdown x"
proof
  have "formatInlineMarkdown (str ''**a*b*'') = str ''*<em>a</em>b*''"
    by code_simp
  moreover have "formatInlineMarkdown (str ''*<em>a</em>b*'') = str ''<em><em>a</em>b</em>''"
    by code_simp
  moreover have "str ''<em><em>a</em>b</em>'' \<noteq> str ''*<em>a</em>b*''"
    by (simp add: str_def)
  ultimately show "formatInlineMarkdown (formatInlineMarkdown (str ''**a*b*'')) \<noteq> formatInlineMarkdown (str ''**a*b*'')"
    by simp
qed

text \<open>
  C8. A section loader whose target element is absent returns the page as it found it: no element
  changes, and no error is logged, so nothing was thrown on the way. (\<^verbatim>\<open>loadSocialLinks\<close>
  loads the configuration first, which may fill the cache or log a failed fetch; the module
  \<^verbatim>\<open>timeline.js\<close> logs a failed fetch.) With or without its target, a loader changes the children of
  no other element.
\<close>

theorem loaders_skip_missing_target:
  "(\<forall>pf timeline pg. elements pg (str ''timeline-list'') = None \<longrightarrow> loadTimeline pf timeline pg = pg)
   \<and> (\<forall>pf fetched pg. elements pg (str ''timeline-list'') = None \<longrightarrow>
         elements (loadTimelineModule pf fetched pg) = elements pg \<and>
         (fetched \<noteq> None \<longrightarrow> loadTimelineModule pf fetched pg = pg))
   \<and> (\<forall>mediaItems pg. elements pg (str ''media-list'') = None \<longrightarrow> loadMedia mediaItems pg = pg)
   \<and> (\<forall>publications pg. elements pg (str ''publications-list'') = None \<longrightarrow>
         loadPublications publications pg = pg)
   \<and> (\<forall>pf blogs pg. elements pg (str ''blog-list'') = None \<longrightarrow> loadBlogs pf blogs pg = pg)
   \<and> (\<forall>response pg. elements pg (str ''profile-socials'') = None \<longrightarrow>
         elements (loadSocialLinks response pg) = elements pg \<and>
         (siteConfig pg \<noteq> None \<or> response \<noteq> Failed \<longrightarrow>
            console (loadSocialLinks response pg) = console pg))
   \<and> (\<forall>pf timeline fetched mediaItems publications blogs response pg other.
         (other \<noteq> str ''timeline-list'' \<longrightarrow>
            elements (loadTimeline pf timeline pg) other = elements pg other \<and>
            elements (loadTimelineModule pf fetched pg) other = elements pg other) \<and>
         (other \<noteq> str ''media-list'' \<longrightarrow> elements (loadMedia mediaItems pg) other = elements pg other) \<and>
         (other \<noteq> str ''publications-list'' \<longrightarrow>
            elements (loadPublications publications pg) other = elements pg other) \<and>
         (other \<noteq> str ''blog-list'' \<longrightarrow> elements (loadBlogs pf blogs pg) other = elements pg other) \<and>
         (other \<noteq> str ''profile-socials'' \<longrightarrow>
            elements (loadSocialLinks response pg) other = elements pg other))"
proof -
  have social: "elements (loadSocialLinks response pg) other = elements pg other"
    if "elements pg (str ''profile-socials'') = None \<or> other \<noteq> str ''profile-socials''"
    for response pg other
  proof -
    obtain v pg' where l: "loadConfig response pg = (v, pg')"
      by (cases "loadConfig response pg") auto
    from loadConfig_elements [OF l] have e: "elements pg' = elements pg" .
    with that l show ?thesis
      by (auto simp: loadSocialLinks_def split: option.splits)
  qed
  have socialConsole: "console (loadSocialLinks response pg) = console pg"
    if "elements pg (str ''profile-socials'') = None" "siteConfig pg \<noteq> None \<or> response \<noteq> Failed"
    for response pg
  proof -
    obtain v pg' where l: "loadConfig response pg = (v, pg')"
      by (cases "loadConfig response pg") auto
    from loadConfig_elements [OF l] loadConfig_console [OF l that(2)] that(1) l show ?thesis
      by (auto simp: loadSocialLinks_def split: option.splits)
  qed
  have 1: "loadTimeline pf timeline pg = pg" if "elements pg (str ''timeline-list'') = None" for pf timeline pg
    using that by (simp add: loadTimeline_def)
  have 2: "elements (loadTimelineModule pf fetched pg) = elements pg \<and>
         (fetched \<noteq> None \<longrightarrow> loadTimelineModule pf fetched pg = pg)"
    if "elements pg (str ''timeline-list'') = None" for pf fetched pg
    using that by (auto simp: loadTimelineModule_def split: option.splits)
  have 3: "loadMedia mediaItems pg = pg" if "elements pg (str ''media-list'') = None" for mediaItems pg
    using that by (simp add: loadMedia_def)
  have 4: "loadPublications publications pg = pg" if "elements pg (str ''publications-list'') = None"
    for publications pg
    using that by (simp add: loadPublications_def)
  have 5: "loadBlogs pf blogs pg = pg" if "elements pg (str ''blog-list'') = None" for pf blogs pg
    using that by (simp add: loadBlogs_def)
  have 6: "elements (loadSocialLinks response pg) = elements pg \<and>
         (siteConfig pg \<noteq> None \<or> response \<noteq> Failed \<longrightarrow>
            console (loadSocialLinks response pg) = console pg)"
    if "elements pg (str ''profile-socials'') = None" for response pg
    using social [of pg _ response] socialConsole [of pg response] that by auto
  have 7: "(other \<noteq> str ''timeline-list'' \<longrightarrow>
            elements (loadTimeline pf timeline pg) other = elements pg other \<and>
            elements (loadTimelineModule pf fetched pg) other = elements pg other) \<and>
         (other \<noteq> str ''media-list'' \<longrightarrow> elements (loadMedia mediaItems pg) other = elements pg other) \<and>
         (other \<noteq> str ''publications-list'' \<longrightarrow>
            elements (loadPublications publications pg) other = elements pg other) \<and>
         (other \<noteq> str ''blog-list'' \<longrightarrow> elements (loadBlogs pf blogs pg) other = elements pg other) \<and>
         (other \<noteq> str ''profile-socials'' \<longrightarrow>
            elements (loadSocialLinks response pg) other = elements pg other)"
    for pf timeline fetched mediaItems publications blogs response pg other
  proof (intro conjI impI)
    assume "other \<noteq> str ''timeline-list''"
    then show "elements (loadTimeline pf timeline pg) other = elements pg other"
      by (auto simp: loadTimeline_def split: option.splits sum.splits)
    from \<open>other \<noteq> str ''timeline-list''\<close>
    show "elements (loadTimelineModule pf fetched pg) other = elements pg other"
      by (auto simp: loadTimelineModule_def split: option.splits sum.splits prod.splits)
  next
    assume "other \<noteq> str ''media-list''"
    then show "elements (loadMedia mediaItems pg) other = elements pg other"
      by (auto simp: loadMedia_def split: option.splits sum.splits)
  next
    assume "other \<noteq> str ''publications-list''"
    then show "elements (loadPublications publications pg) other = elements pg other"
      by (auto simp: loadPublications_def split: option.splits sum.splits)
  next
    assume "other \<noteq> str ''blog-list''"
    then show "elements (loadBlogs pf blogs pg) other = elements pg other"
      by (auto simp: loadBlogs_def split: option.splits)
  next
    assume "other \<noteq> str ''profile-socials''"
    then show "elements (loadSocialLinks response pg) other = elements pg other"
      by (intro social) simp
  qed
  from 1 have c1: "\<forall>pf timeline pg. elements pg (str ''timeline-list'') = None \<longrightarrow> loadTimeline pf timeline pg = pg"
    by blast
  from 2 have c2: "\<forall>pf fetched pg. elements pg (str ''timeline-list'') = None \<longrightarrow>
         elements (loadTimelineModule pf fetched pg) = elements pg \<and>
         (fetched \<noteq> None \<longrightarrow> loadTimelineModule pf fetched pg = pg)"
    by blast
  from 3 have c3: "\<forall>mediaItems pg. elements pg (str ''media-list'') = None \<longrightarrow> loadMedia mediaItems pg = pg"
    by blast
  from 4 have c4: "\<forall>publications pg. elements pg (str ''publications-list'') = None \<longrightarrow>
         loadPublications publications pg = pg"
    by blast
  from 5 have c5: "\<forall>pf blogs pg. elements pg (str ''blog-list'') = None \<longrightarrow> loadBlogs pf blogs pg = pg"
    by blast
  from 6 have c6: "\<forall>response pg. elements pg (str ''profile-socials'') = None \<longrightarrow>
         elements (loadSocialLinks response pg) = elements pg \<and>
         (siteConfig pg \<noteq> None \<or> response \<noteq> Failed \<longrightarrow>
            console (loadSocialLinks response pg) = console pg)"
    by blast
  from 7 have c7: "\<forall>pf timeline fetched mediaItems publications blogs response pg other.
         (other \<noteq> str ''timeline-list'' \<longrightarrow>
            elements (loadTimeline pf timeline pg) other = elements pg other \<and>
            elements (loadTimelineModule pf fetched pg) other = elements pg other) \<and>
         (other \<noteq> str ''media-list'' \<longrightarrow> elements (loadMedia mediaItems pg) other = elements pg other) \<and>
         (other \<noteq> str ''publications-list'' \<longrightarrow>
            elements (loadPublications publications pg) other = elements pg other) \<and>
         (other \<noteq> str ''blog-list'' \<longrightarrow> elements (loadBlogs pf blogs pg) other = elements pg other) \<and>
         (other \<noteq> str ''profile-socials'' \<longrightarrow>
            elements (loadSocialLinks response pg) other = elements pg other)"
    by (intro allI)
  show ?thesis
    by (rule conjI [OF c1 conjI [OF c2 conjI [OF c3 conjI [OF c4 conjI [OF c5 conjI [OF c6 c7]]]]]])
qed

text \<open>C8 on a page without any of the targets, and on a page with a timeline list for the last part.\<close>

theorem loaders_skip_missing_target_witness:
  "loadTimeline examplePlatform (Some [exampleEntry ''2020-03-01'' ''present'']) barePage = barePage
   \<and> elements (loadTimelineModule examplePlatform None barePage) = elements barePage
   \<and> loadTimelineModule examplePlatform (Some [exampleEntry ''2020-03-01'' ''present'']) barePage = barePage
   \<and> loadMedia (Some [\<lparr>video_id = Some (str ''abc''), timestamp = None, m_title = None, m_description = None\<rparr>])
        barePage = barePage
   \<and> loadPublications (Some []) barePage = barePage
   \<and> loadBlogs examplePlatform (Some []) barePage = barePage
   \<and> elements (loadSocialLinks (Loaded (Some \<lparr>contacts = Some []\<rparr>)) barePage) = elements barePage
   \<and> console (loadSocialLinks (Loaded (Some \<lparr>contacts = Some []\<rparr>)) barePage) = console barePage
   \<and> elements (loadTimeline examplePlatform (Some []) examplePage) (str ''media-list'')
        = elements examplePage (str ''media-list'')"
proof -
  note T = loaders_skip_missing_target
  have b: "elements barePage x = None" for x
    by (simp add: barePage_def)
  have 1: "loadTimeline examplePlatform (Some [exampleEntry ''2020-03-01'' ''present'']) barePage = barePage"
    by (rule T [THEN conjunct1, rule_format]) (rule b)
  from T [THEN conjunct2, THEN conjunct1, rule_format, OF b, of examplePlatform None]
  have 2: "elements (loadTimelineModule examplePlatform None barePage) = elements barePage"
    by (rule conjunct1)
  from T [THEN conjunct2, THEN conjunct1, rule_format, OF b, of examplePlatform
      "Some [exampleEntry ''2020-03-01'' ''present'']"]
  have 3: "loadTimelineModule examplePlatform (Some [exampleEntry ''2020-03-01'' ''present'']) barePage = barePage"
    by simp
  have 4: "loadMedia (Some [\<lparr>video_id = Some (str ''abc''), timestamp = None, m_title = None, m_description = None\<rparr>])
        barePage = barePage"
    by (rule T [THEN conjunct2, THEN conjunct2, THEN conjunct1, rule_format]) (rule b)
  have 5: "loadPublications (Some []) barePage = barePage"
    by (rule T [THEN conjunct2, THEN conjunct2, THEN conjunct2, THEN conjunct1, rule_format]) (rule b)
  have 6: "loadBlogs examplePlatform (Some []) barePage = barePage"
    by (rule T [THEN conjunct2, THEN conjunct2, THEN conjunct2, THEN conjunct2, THEN conjunct1, rule_format])
       (rule b)
  from T [THEN conjunct2, THEN conjunct2, THEN conjunct2, THEN conjunct2, THEN conjunct2, THEN conjunct1,
      rule_format, OF b, of "Loaded (Some \<lparr>contacts = Some []\<rparr>)"]
  have 7: "elements (loadSocialLinks (Loaded (Some \<lparr>contacts = Some []\<rparr>)) barePage) = elements barePage"
    and 8: "console (loadSocialLinks (Loaded (Some \<lparr>contacts = Some []\<rparr>)) barePage) = console barePage"
    by simp_all
  have n: "str ''media-list'' \<noteq> str ''timeline-list''"
    by (simp add: str_def)
  from T [THEN conjunct2, THEN conjunct2, THEN conjunct2, THEN conjunct2, THEN conjunct2, THEN conjunct2,
      rule_format, THEN conjunct1, rule_format, OF n, of examplePlatform "Some []" examplePage]
  have 9: "elements (loadTimeline examplePlatform (Some []) examplePage) (str ''media-list'')
        = elements examplePage (str ''media-list'')"
    by (rule conjunct1)
  show ?thesis
    by (rule conjI [OF 1 conjI [OF 2 conjI [OF 3 conjI [OF 4 conjI [OF 5 conjI [OF 6 conjI [OF 7 conjI [OF 8 9]]]]]]]])
qed

text \<open>
  C9, as amended. Let every response of a run fail or parse to one configuration \<open>cfg\<close>. Then
  every value assigned to the cache is \<open>cfg\<close>, and the cache holds nothing but \<^verbatim>\<open>null\<close> or
  \<open>cfg\<close>. Once the cache holds \<open>cfg\<close> it keeps it, no further fetch starts, and a call
  returns \<open>cfg\<close> and does nothing else. Calls that do not overlap write the cache at most once,
  on the first load that succeeds, and fetch once for each failed load before it and once for it.
  Two loads that overlap each fetch and each assign \<open>cfg\<close>. A call that is made and settled
  while no other waits is \<^verbatim>\<open>loadConfig\<close> as written.
\<close>

theorem loadConfig_cache:
  "(\<forall>cfg es. sameResponses cfg es \<longrightarrow>
        list_all (\<lambda>v. v = Some cfg) (written (runEvents es freshRun)) \<and>
        (siteConfig (thePage (runEvents es freshRun)) = None \<or>
         siteConfig (thePage (runEvents es freshRun)) = Some cfg))
   \<and> (\<forall>r cfg es. siteConfig (thePage r) = Some cfg \<and> sameResponses cfg es \<longrightarrow>
         siteConfig (thePage (runEvents es r)) = Some cfg \<and> fetches (runEvents es r) = fetches r \<and>
         step Call (runEvents es r) = (runEvents es r)\<lparr>results := results (runEvents es r) @ [Some cfg]\<rparr>)
   \<and> (\<forall>cfg rs. list_all (\<lambda>response. response = Failed \<or> response = Loaded (Some cfg)) rs \<longrightarrow>
         written (runEvents (inTurn rs) freshRun) = (if Loaded (Some cfg) \<in> set rs then [Some cfg] else []) \<and>
         fetches (runEvents (inTurn rs) freshRun)
           = length (takeWhile (\<lambda>response. response = Failed) rs) +
             (if Loaded (Some cfg) \<in> set rs then 1 else 0))
   \<and> (\<forall>cfg. written (runEvents [Call, Call, Settle (Loaded (Some cfg)), Settle (Loaded (Some cfg))] freshRun)
           = [Some cfg, Some cfg] \<and>
         fetches (runEvents [Call, Call, Settle (Loaded (Some cfg)), Settle (Loaded (Some cfg))] freshRun) = 2)
   \<and> (\<forall>r response. waiting r = 0 \<longrightarrow>
         thePage (runEvents [Call, Settle response] r) = snd (loadConfig response (thePage r)) \<and>
         results (runEvents [Call, Settle response] r) = results r @ [fst (loadConfig response (thePage r))])"
proof -
  have 1: "list_all (\<lambda>v. v = Some cfg) (written (runEvents es freshRun)) \<and>
        (siteConfig (thePage (runEvents es freshRun)) = None \<or>
         siteConfig (thePage (runEvents es freshRun)) = Some cfg)"
    if s: "sameResponses cfg es" for cfg es
  proof
    show "list_all (\<lambda>v. v = Some cfg) (written (runEvents es freshRun))"
      by (rule run_written_same [OF _ s]) (simp add: freshRun_def)
    show "siteConfig (thePage (runEvents es freshRun)) = None \<or>
         siteConfig (thePage (runEvents es freshRun)) = Some cfg"
      by (rule run_empty_or_cfg [OF _ s]) (simp add: freshRun_def)
  qed
  have 2: "siteConfig (thePage (runEvents es r)) = Some cfg \<and> fetches (runEvents es r) = fetches r \<and>
         step Call (runEvents es r) = (runEvents es r)\<lparr>results := results (runEvents es r) @ [Some cfg]\<rparr>"
    if a: "siteConfig (thePage r) = Some cfg \<and> sameResponses cfg es" for cfg es and r :: run
  proof -
    from a have c: "siteConfig (thePage r) = Some cfg" and s: "sameResponses cfg es"
      by simp_all
    from run_keeps_cached [OF c s] have k: "siteConfig (thePage (runEvents es r)) = Some cfg" .
    from k run_cached_no_fetch [OF c s] step_Call_cached [OF k] show ?thesis
      by (intro conjI)
  qed
  have 3: "written (runEvents (inTurn rs) freshRun) = (if Loaded (Some cfg) \<in> set rs then [Some cfg] else []) \<and>
         fetches (runEvents (inTurn rs) freshRun)
           = length (takeWhile (\<lambda>response. response = Failed) rs) +
             (if Loaded (Some cfg) \<in> set rs then 1 else 0)"
    if a: "list_all (\<lambda>response. response = Failed \<or> response = Loaded (Some cfg)) rs" for cfg rs
    using inTurn_empty [OF _ _ a, of freshRun] by (simp add: freshRun_def)
  have 4: "written (runEvents [Call, Call, Settle (Loaded (Some cfg)), Settle (Loaded (Some cfg))] freshRun)
           = [Some cfg, Some cfg] \<and>
         fetches (runEvents [Call, Call, Settle (Loaded (Some cfg)), Settle (Loaded (Some cfg))] freshRun) = 2"
    for cfg
    by (simp add: freshRun_def loadConfigFinish_def)
  have 5: "thePage (runEvents [Call, Settle response] r) = snd (loadConfig response (thePage r)) \<and>
         results (runEvents [Call, Settle response] r) = results r @ [fst (loadConfig response (thePage r))]"
    if "waiting r = 0" for response and r :: run
    using sequential_is_loadConfig [OF that] by (intro conjI)
  from 1 have c1: "\<forall>cfg es. sameResponses cfg es \<longrightarrow>
        list_all (\<lambda>v. v = Some cfg) (written (runEvents es freshRun)) \<and>
        (siteConfig (thePage (runEvents es freshRun)) = None \<or>
         siteConfig (thePage (runEvents es freshRun)) = Some cfg)"
    by (intro allI impI)
  from 2 have c2: "\<forall>r cfg es. siteConfig (thePage r) = Some cfg \<and> sameResponses cfg es \<longrightarrow>
         siteConfig (thePage (runEvents es r)) = Some cfg \<and> fetches (runEvents es r) = fetches r \<and>
         step Call (runEvents es r) = (runEvents es r)\<lparr>results := results (runEvents es r) @ [Some cfg]\<rparr>"
    by (intro allI impI)
  from 3 have c3: "\<forall>cfg rs. list_all (\<lambda>response. response = Failed \<or> response = Loaded (Some cfg)) rs \<longrightarrow>
         written (runEvents (inTurn rs) freshRun) = (if Loaded (Some cfg) \<in> set rs then [Some cfg] else []) \<and>
         fetches (runEvents (inTurn rs) freshRun)
           = length (takeWhile (\<lambda>response. response = Failed) rs) +
             (if Loaded (Some cfg) \<in> set rs then 1 else 0)"
    by (intro allI impI)
  from 4 have c4: "\<forall>cfg. written (runEvents [Call, Call, Settle (Loaded (Some cfg)), Settle (Loaded (Some cfg))] freshRun)
           = [Some cfg, Some cfg] \<and>
         fetches (runEvents [Call, Call, Settle (Loaded (Some cfg)), Settle (Loaded (Some cfg))] freshRun) = 2"
    by (intro allI)
  from 5 have c5: "\<forall>r response. waiting r = 0 \<longrightarrow>
         thePage (runEvents [Call, Settle response] r) = snd (loadConfig response (thePage r)) \<and>
         results (runEvents [Call, Settle response] r) = results r @ [fst (loadConfig response (thePage r))]"
    by (intro allI impI)
  show ?thesis
    by (rule conjI [OF c1 conjI [OF c2 conjI [OF c3 conjI [OF c4 c5]]]])
qed

text \<open>
  C9 on a run of two overlapping loads, on a run that has loaded a configuration, and on four
  calls in turn of which the first fails.
\<close>

theorem loadConfig_cache_witness:
  "list_all (\<lambda>v. v = Some exampleConfig)
      (written (runEvents [Call, Call, Settle (Loaded (Some exampleConfig)), Settle Failed, Call] freshRun))
   \<and> siteConfig (thePage (runEvents [Call, Settle Failed, Call] loadedRun)) = Some exampleConfig
   \<and> fetches (runEvents [Call, Settle Failed, Call] loadedRun) = fetches loadedRun
   \<and> step Call (runEvents [Call, Settle Failed, Call] loadedRun)
       = (runEvents [Call, Settle Failed, Call] loadedRun)\<lparr>results :=
            results (runEvents [Call, Settle Failed, Call] loadedRun) @ [Some exampleConfig]\<rparr>
   \<and> written (runEvents (inTurn [Failed, Loaded (Some exampleConfig), Failed, Loaded (Some exampleConfig)]) freshRun)
       = [Some exampleConfig]
   \<and> fetches (runEvents (inTurn [Failed, Loaded (Some exampleConfig), Failed, Loaded (Some exampleConfig)]) freshRun)
       = 2
   \<and> thePage (runEvents [Call, Settle (Loaded (Some exampleConfig))] freshRun)
       = snd (loadConfig (Loaded (Some exampleConfig)) (thePage freshRun))"
proof -
  note T = loadConfig_cache
  have c: "siteConfig (thePage loadedRun) = Some exampleConfig"
    by (simp add: loadedRun_def freshRun_def loadConfigFinish_def)
  have s1: "sameResponses exampleConfig [Call, Call, Settle (Loaded (Some exampleConfig)), Settle Failed, Call]"
    by (simp add: sameResponses_def)
  have s2: "sameResponses exampleConfig [Call, Settle Failed, Call]"
    by (simp add: sameResponses_def)
  have s3: "list_all (\<lambda>response. response = Failed \<or> response = Loaded (Some exampleConfig))
      [Failed, Loaded (Some exampleConfig), Failed, Loaded (Some exampleConfig)]"
    by simp
  have w: "waiting freshRun = 0"
    by (simp add: freshRun_def)
  from T [THEN conjunct1, rule_format, OF s1]
  have 1: "list_all (\<lambda>v. v = Some exampleConfig)
      (written (runEvents [Call, Call, Settle (Loaded (Some exampleConfig)), Settle Failed, Call] freshRun))"
    by (rule conjunct1)
  from T [THEN conjunct2, THEN conjunct1, rule_format, OF conjI [OF c s2]]
  have 2: "siteConfig (thePage (runEvents [Call, Settle Failed, Call] loadedRun)) = Some exampleConfig \<and>
      fetches (runEvents [Call, Settle Failed, Call] loadedRun) = fetches loadedRun \<and>
      step Call (runEvents [Call, Settle Failed, Call] loadedRun)
       = (runEvents [Call, Settle Failed, Call] loadedRun)\<lparr>results :=
            results (runEvents [Call, Settle Failed, Call] loadedRun) @ [Some exampleConfig]\<rparr>" .
  from T [THEN conjunct2, THEN conjunct2, THEN conjunct1, rule_format, OF s3]
  have 3: "written (runEvents (inTurn [Failed, Loaded (Some exampleConfig), Failed, Loaded (Some exampleConfig)]) freshRun)
       = [Some exampleConfig] \<and>
     fetches (runEvents (inTurn [Failed, Loaded (Some exampleConfig), Failed, Loaded (Some exampleConfig)]) freshRun)
       = 2"
    by simp
  from T [THEN conjunct2, THEN conjunct2, THEN conjunct2, THEN conjunct2, rule_format, OF w,
      of "Loaded (Some exampleConfig)"]
  have 4: "thePage (runEvents [Call, Settle (Loaded (Some exampleConfig))] freshRun)
       = snd (loadConfig (Loaded (Some exampleConfig)) (thePage freshRun))"
    by (rule conjunct1)
  show ?thesis
    by (rule conjI [OF 1 conjI [OF 2 [THEN conjunct1] conjI [OF 2 [THEN conjunct2, THEN conjunct1]
          conjI [OF 2 [THEN conjunct2, THEN conjunct2] conjI [OF 3 [THEN conjunct1]
          conjI [OF 3 [THEN conjunct2] 4]]]]]])
qed

text \<open>
  The claim as stated fails where two overlapping loads receive different documents: the second
  assigns another configuration, so the cache holds two different values; and where the second
  document is empty the cache is emptied again, so that the call after the first successful load
  fetches a third time.
\<close>

theorem loadConfig_cache_counterexample:
  "written (runEvents [Call, Call, Settle (Loaded (Some exampleConfig)), Settle (Loaded (Some otherConfig))] freshRun)
     = [Some exampleConfig, Some otherConfig]
   \<and> exampleConfig \<noteq> otherConfig
   \<and> siteConfig (thePage (runEvents [Call, Call, Settle (Loaded (Some exampleConfig))] freshRun))
       = Some exampleConfig
   \<and> siteConfig (thePage (runEvents [Call, Call, Settle (Loaded (Some exampleConfig)), Settle (Loaded None)] freshRun))
       = None
   \<and> fetches (runEvents [Call, Call, Settle (Loaded (Some exampleConfig)), Settle (Loaded None), Call] freshRun) = 3"
  by (simp add: freshRun_def loadConfigFinish_def exampleConfig_def otherConfig_def)




end
